theory Spec2Isabelle
  imports Complex_Main
begin

section \<open>JavaScript values used by the reset event\<close>

text \<open>
  The numbers the reset event computes with are its options \<open>maxQueueSize\<close> and
  \<open>autoResetCount\<close> and the field \<open>callbacksCount\<close>. They are modelled as
  \<open>undefined\<close> (an option given as \<open>undefined\<close>, a field never assigned),
  \<open>NaN\<close>, \<open>Infinity\<close> (the default of both options) or an integer. Fractions and
  \<open>-Infinity\<close> are left out for these three.
\<close>

datatype jsnum = JUndefined | JNaN | JInfinity | JNum int

text \<open>
  \<open>x--\<close> and \<open>x++\<close>: the operand is converted to a number first. Integers are
  counted exactly, as the code's doubles do from \<open>-2^53\<close> to \<open>2^53\<close>; beyond, the
  doubles round (\<open>double_decr\<close>, \<open>double_incr\<close> below).
\<close>

fun decr :: "jsnum \<Rightarrow> jsnum" where
  "decr JUndefined = JNaN"
| "decr JNaN = JNaN"
| "decr JInfinity = JInfinity"
| "decr (JNum n) = JNum (n - 1)"

fun incr :: "jsnum \<Rightarrow> jsnum" where
  "incr JUndefined = JNaN"
| "incr JNaN = JNaN"
| "incr JInfinity = JInfinity"
| "incr (JNum n) = JNum (n + 1)"

text \<open>\<open>x > 0\<close> and \<open>x === 0\<close>.\<close>

fun gt_zero :: "jsnum \<Rightarrow> bool" where
  "gt_zero (JNum n) = (0 < n)"
| "gt_zero JInfinity = True"
| "gt_zero _ = False"

fun is_zero :: "jsnum \<Rightarrow> bool" where
  "is_zero (JNum n) = (n = 0)"
| "is_zero _ = False"

text \<open>\<open>typeof x === 'number' && !isNaN(x)\<close>.\<close>

fun is_number :: "jsnum \<Rightarrow> bool" where
  "is_number (JNum n) = True"
| "is_number JInfinity = True"
| "is_number _ = False"

text \<open>\<open>queue.length > x\<close>, for an array length \<open>n\<close>.\<close>

fun length_gt :: "nat \<Rightarrow> jsnum \<Rightarrow> bool" where
  "length_gt n (JNum m) = (m < int n)"
| "length_gt n _ = False"

text \<open>
  The \<open>timeout\<close> argument of \<open>wait\<close> is only tested for truthiness and handed to
  \<open>setTimeout\<close>, so it is modelled with every number it can be: left out (\<open>undefined\<close>),
  \<open>NaN\<close>, \<open>Infinity\<close>, \<open>-Infinity\<close>, or a finite number, fractions included (a
  double is a real number, and \<open>-0\<close> is 0). \<open>truthy\<close> is the test \<open>if (timeout)\<close>.
\<close>

datatype delay = TUndefined | TNaN | TInfinity | TNegInfinity | TNum real

fun truthy :: "delay \<Rightarrow> bool" where
  "truthy (TNum x) = (x \<noteq> 0)"
| "truthy TInfinity = True"
| "truthy TNegInfinity = True"
| "truthy _ = False"

section \<open>Tokens, options and the state\<close>

text \<open>
  A token object. Tokens are shared and mutated in place (by the timer closure, by \<open>wait\<close>
  on eviction), so they live in a store addressed by their \<open>id\<close>, and the queue holds
  references. The callback is opaque: it is identified by a number. \<open>timeoutId\<close> is
  \<open>None\<close> for \<open>undefined\<close> and \<open>null\<close>, and the handle that \<open>setTimeout\<close> returned
  otherwise; the handle of a token's timer is named after the token whose closure it runs.
  The fields \<open>elapsed\<close>, \<open>start\<close>, \<open>resetEvent\<close> and \<open>set\<close> play no part in the queue.
\<close>

record token =
  token_id :: nat
  isCanceled :: bool
  callback :: nat
  timeoutId :: "nat option"

record options =
  maxQueueSize :: jsnum
  overflowStrategy :: string
  autoResetCount :: jsnum

definition defaultOptions :: options where
  "defaultOptions =
     \<lparr>maxQueueSize = JInfinity, overflowStrategy = ''this'', autoResetCount = JInfinity\<rparr>"

text \<open>
  An element of the queue array: a reference to a token, or \<open>undefined\<close>, which
  \<open>reduceQueue\<close> pushes when it pops an empty array.
\<close>

datatype entry = Tok nat | Undef

text \<open>
  The reset event with the part of its environment it acts on: the module's counter
  \<open>tokenId\<close>, the token store, the set of pending timers (by handle), and the list of
  the tokens whose callback \<open>executeCallback\<close> has run, oldest first. Callbacks are
  taken not to call back into the reset event.
\<close>

record state =
  queue :: "entry list"
  isSignaled :: bool
  callbacksCount :: jsnum
  options :: options
  tokenId :: nat
  tokens :: "nat \<Rightarrow> token"
  timers :: "nat set"
  invoked :: "nat list"

datatype error =
    AlreadyNonSignaled
  | AlreadySignaled
  | CallbackNotFunction
  | TokenNullOrUndefined
  | TypeError

text \<open>The callback argument of \<open>wait\<close>: a function, or anything else.\<close>

datatype arg = Function nat | NotFunction

section \<open>The operations\<close>

text \<open>
  The constructor, in a fresh module (\<open>tokenId = 0\<close>, no timer, nothing invoked). Its
  second argument is the options after \<open>_.extend\<close> with the defaults. \<open>callbacksCount\<close>
  is not assigned.
\<close>

definition ResetEvent :: "bool \<Rightarrow> options \<Rightarrow> state" where
  "ResetEvent signaled opts =
     \<lparr>queue = [], isSignaled = signaled, callbacksCount = JUndefined, options = opts,
      tokenId = 0,
      tokens = (\<lambda>_. \<lparr>token_id = 0, isCanceled = False, callback = 0, timeoutId = None\<rparr>),
      timers = {}, invoked = []\<rparr>"

text \<open>\<open>createToken\<close>: allocates the token \<open>tokenId++\<close>. It never returns null.\<close>

definition createToken :: "nat \<Rightarrow> state \<Rightarrow> nat option \<times> state" where
  "createToken cb w =
     (Some (tokenId w),
      w\<lparr>tokens := (tokens w)(tokenId w :=
            \<lparr>token_id = tokenId w, isCanceled = False, callback = cb, timeoutId = None\<rparr>),
        tokenId := tokenId w + 1\<rparr>)"

text \<open>
  The two loops of \<open>reduceQueue\<close>; each returns the tokens removed and the queue left.
  \<open>last_loop\<close>: \<open>while (queue.length && queue.length > maxQueueSize - 1)
  result.unshift(queue.pop())\<close>.
  \<open>first_loop\<close>: \<open>while (queue.length && queue.length > maxQueueSize)
  result.push(queue.shift())\<close>.
\<close>

function last_loop :: "entry list \<Rightarrow> jsnum \<Rightarrow> entry list \<Rightarrow> entry list \<times> entry list" where
  "last_loop q m result =
     (if q \<noteq> [] \<and> length_gt (length q) (decr m)
      then last_loop (butlast q) m (last q # result)
      else (result, q))"
  by pat_completeness auto
termination
  by (relation "measure (\<lambda>(q, m, result). length q)") auto

function first_loop :: "entry list \<Rightarrow> jsnum \<Rightarrow> entry list \<Rightarrow> entry list \<times> entry list" where
  "first_loop q m result =
     (if q \<noteq> [] \<and> length_gt (length q) m
      then first_loop (tl q) m (result @ [hd q])
      else (result, q))"
  by pat_completeness auto
termination
  by (relation "measure (\<lambda>(q, m, result). length q)") auto

declare last_loop.simps [simp del] first_loop.simps [simp del]

text \<open>
  \<open>reduceQueue\<close> returns the removed tokens; the queue it mutates is returned second.
  In the \<open>'last'\<close> branch the first \<open>queue.pop()\<close> is not guarded: on an empty array
  it yields \<open>undefined\<close>, which is then pushed.
\<close>

definition reduceQueue :: "entry list \<Rightarrow> options \<Rightarrow> entry list \<times> entry list" where
  "reduceQueue q opts =
     (if \<not> is_number (maxQueueSize opts) then ([], q)
      else if length_gt (length q) (maxQueueSize opts) then
        (if overflowStrategy opts = ''last'' then
           (let lst = (if q = [] then Undef else last q);
                (result, q') = last_loop (butlast q) (maxQueueSize opts) []
            in (result, q' @ [lst]))
         else if overflowStrategy opts = ''first'' then
           first_loop q (maxQueueSize opts) []
         else if q \<noteq> [] \<and> overflowStrategy opts = ''this'' then
           ([last q], butlast q)
         else ([], q))
      else ([], q))"

text \<open>\<open>executeCallback\<close>: the default calls the token's callback at once.\<close>

definition executeCallback :: "nat \<Rightarrow> state \<Rightarrow> state" where
  "executeCallback a w = w\<lparr>invoked := invoked w @ [a]\<rparr>"

definition clearTimeout :: "nat \<Rightarrow> state \<Rightarrow> state" where
  "clearTimeout h w = w\<lparr>timers := timers w - {h}\<rparr>"

text \<open>
  A thrown error is \<open>Inl\<close>, with the state the throw leaves behind.
\<close>

definition reset :: "state \<Rightarrow> (error \<times> state) + state" where
  "reset w =
     (if \<not> isSignaled w then Inl (AlreadyNonSignaled, w)
      else Inr (w\<lparr>isSignaled := False\<rparr>))"

text \<open>
  One pass through the body of the \<open>while\<close> loop of \<open>set\<close>: it goes round again,
  returns from \<open>set\<close>, or throws (reading \<open>timeoutId\<close> of \<open>undefined\<close>). The loop runs
  it on a non-empty queue only; \<open>queue.shift()\<close> yields \<open>undefined\<close> on an empty one.
\<close>

datatype outcome = Continue state | Return state | Throw error state

definition set_body :: "state \<Rightarrow> outcome" where
  "set_body w =
     (let queueToken = (case queue w of [] \<Rightarrow> Undef | e # q \<Rightarrow> e);
          w1 = w\<lparr>queue := tl (queue w), callbacksCount := decr (callbacksCount w)\<rparr> in
      case queueToken of
        Undef \<Rightarrow> Throw TypeError w1
      | Tok a \<Rightarrow>
          (let w2 = (case timeoutId (tokens w1 a) of
                       Some h \<Rightarrow> if gt_zero (callbacksCount w1) then clearTimeout h w1 else w1
                     | None \<Rightarrow> w1)
           in if isCanceled (tokens w2 a)
              then Continue (w2\<lparr>callbacksCount := incr (callbacksCount w2)\<rparr>)
              else (let w3 = executeCallback a w2
                    in if is_zero (callbacksCount w3) then Return w3 else Continue w3)))"

lemma set_body_shorter:
  "queue w \<noteq> [] \<Longrightarrow> set_body w = Continue w' \<Longrightarrow> length (queue w') < length (queue w)"
  by (auto simp: set_body_def Let_def executeCallback_def clearTimeout_def
      split: entry.splits option.splits if_splits)

function set_loop :: "state \<Rightarrow> (error \<times> state) + state" where
  "set_loop w =
     (if queue w = [] then Inr (w\<lparr>isSignaled := True\<rparr>)
      else case set_body w of
             Continue w' \<Rightarrow> set_loop w'
           | Return w' \<Rightarrow> Inr w'
           | Throw e w' \<Rightarrow> Inl (e, w'))"
  by pat_completeness auto
termination
  by (relation "measure (\<lambda>w. length (queue w))") (auto simp: set_body_shorter)

declare set_loop.simps [simp del]

definition set_op :: "state \<Rightarrow> (error \<times> state) + state" where
  "set_op w =
     (if isSignaled w then Inl (AlreadySignaled, w)
      else set_loop (w\<lparr>callbacksCount := autoResetCount (options w)\<rparr>))"

text \<open>
  The \<open>for\<close> loop of \<open>wait\<close> over the removed tokens, and its body: the token is
  marked cancelled and its timer, if it has a handle, cleared. The body throws on
  \<open>undefined\<close>.
\<close>

definition cancel_token :: "nat \<Rightarrow> state \<Rightarrow> state" where
  "cancel_token a w =
     (let w1 = w\<lparr>tokens := (tokens w)(a := (tokens w a)\<lparr>isCanceled := True\<rparr>)\<rparr>
      in case timeoutId (tokens w1 a) of
           Some h \<Rightarrow> clearTimeout h w1
         | None \<Rightarrow> w1)"

fun cancel_reduced :: "entry list \<Rightarrow> state \<Rightarrow> (error \<times> state) + state" where
  "cancel_reduced [] w = Inr w"
| "cancel_reduced (Undef # rs) w = Inl (TypeError, w)"
| "cancel_reduced (Tok a # rs) w = cancel_reduced rs (cancel_token a w)"

text \<open>
  \<open>wait\<close> returns the token. \<open>setTimeout\<close> adds the new timer to the pending ones.
\<close>

definition wait :: "arg \<Rightarrow> delay \<Rightarrow> state \<Rightarrow> (error \<times> state) + (nat \<times> state)" where
  "wait cb timeout w =
     (case cb of
        NotFunction \<Rightarrow> Inl (CallbackNotFunction, w)
      | Function f \<Rightarrow>
          (case createToken f w of
             (None, w0) \<Rightarrow> Inl (TokenNullOrUndefined, w0)
           | (Some t, w0) \<Rightarrow>
               (let w1 = (if truthy timeout
                          then w0\<lparr>tokens := (tokens w0)(t := (tokens w0 t)\<lparr>timeoutId := Some t\<rparr>),
                                  timers := insert t (timers w0)\<rparr>
                          else w0);
                    w2 = (if isSignaled w1
                          then (let w' = executeCallback t w1;
                                    w'' = w'\<lparr>callbacksCount := decr (callbacksCount w')\<rparr>
                                in if is_zero (callbacksCount w'')
                                   then w''\<lparr>isSignaled := False\<rparr> else w'')
                          else w1\<lparr>queue := queue w1 @ [Tok t]\<rparr>);
                    (reducedTokens, q) = reduceQueue (queue w2) (options w2);
                    w3 = w2\<lparr>queue := q\<rparr>
                in case cancel_reduced reducedTokens w3 of
                     Inl e \<Rightarrow> Inl e
                   | Inr w4 \<Rightarrow> Inr (t, w4))))"

text \<open>The timer of handle \<open>h\<close> fires, if it is pending: the closure armed by \<open>wait\<close>.\<close>

definition fire :: "nat \<Rightarrow> state \<Rightarrow> state" where
  "fire h w =
     (if h \<in> timers w
      then w\<lparr>tokens := (tokens w)(h := (tokens w h)\<lparr>isCanceled := True, timeoutId := None\<rparr>),
             timers := timers w - {h}\<rparr>
      else w)"

definition queueSize :: "state \<Rightarrow> nat" where
  "queueSize w = length (queue w)"

text \<open>
  What can happen to a reset event, one after the other (JavaScript runs each call and each
  timer closure to its end), and the state each leaves, thrown or returned.
\<close>

datatype event = CallReset | CallSet | CallWait arg delay | TimerFires nat

fun left_by :: "(error \<times> state) + state \<Rightarrow> state" where
  "left_by (Inl (e, w)) = w"
| "left_by (Inr w) = w"

fun step :: "event \<Rightarrow> state \<Rightarrow> state" where
  "step CallReset w = left_by (reset w)"
| "step CallSet w = left_by (set_op w)"
| "step (CallWait cb timeout) w = left_by (map_sum id snd (wait cb timeout w))"
| "step (TimerFires h) w = fire h w"

declare step.simps [simp del]

fun run :: "event list \<Rightarrow> state \<Rightarrow> state" where
  "run [] w = w"
| "run (e # es) w = run es (step e w)"

section \<open>Notions used to state the properties\<close>

text \<open>The state an \<open>outcome\<close> of the loop body carries.\<close>

fun state_of :: "outcome \<Rightarrow> state" where
  "state_of (Continue w) = w"
| "state_of (Return w) = w"
| "state_of (Throw e w) = w"

text \<open>The tokens of a queue that are not cancelled, oldest first.\<close>

fun live_in :: "(nat \<Rightarrow> token) \<Rightarrow> entry list \<Rightarrow> nat list" where
  "live_in ts [] = []"
| "live_in ts (Undef # q) = live_in ts q"
| "live_in ts (Tok a # q) = (if isCanceled (ts a) then live_in ts q else a # live_in ts q)"

definition pending :: "state \<Rightarrow> nat list" where
  "pending w = live_in (tokens w) (queue w)"

text \<open>The state with the token \<open>a\<close> taken out of the queue.\<close>

definition without :: "nat \<Rightarrow> state \<Rightarrow> state" where
  "without a w = w\<lparr>queue := removeAll (Tok a) (queue w)\<rparr>"

text \<open>
  \<open>n\<close> calls, \<open>reset\<close> and \<open>set\<close> strictly in turn whatever the state is; the first
  one is \<open>reset\<close> when \<open>r\<close> holds. The first throw ends them.
\<close>

fun in_turn :: "bool \<Rightarrow> nat \<Rightarrow> state \<Rightarrow> (error \<times> state) + state" where
  "in_turn r 0 w = Inr w"
| "in_turn r (Suc n) w =
     (case (if r then reset w else set_op w) of
        Inl e \<Rightarrow> Inl e
      | Inr w' \<Rightarrow> in_turn (\<not> r) n w')"

text \<open>
  A release exhausts its count when \<open>autoResetCount\<close> is a number from 1 to the number of
  queued tokens that are not cancelled; \<open>released\<close> are the tokens it then has to invoke,
  and all that are not cancelled otherwise.
\<close>

definition exhausts :: "state \<Rightarrow> bool" where
  "exhausts w =
     (case autoResetCount (options w) of
        JNum k \<Rightarrow> 1 \<le> k \<and> k \<le> int (length (pending w))
      | _ \<Rightarrow> False)"

definition released :: "state \<Rightarrow> nat list" where
  "released w =
     (case autoResetCount (options w) of
        JNum k \<Rightarrow> if 1 \<le> k \<and> k \<le> int (length (pending w))
                  then take (nat k) (pending w) else pending w
      | _ \<Rightarrow> pending w)"

text \<open>
  The states on which the body of the loop of \<open>set\<close> runs, in order, when the loop
  starts in \<open>w\<close>: one for each token popped.
\<close>

function passes :: "state \<Rightarrow> state list" where
  "passes w =
     (if queue w = [] then []
      else w # (case set_body w of
                  Continue w' \<Rightarrow> passes w'
                | Return w' \<Rightarrow> []
                | Throw e w' \<Rightarrow> []))"
  by pat_completeness auto
termination
  by (relation "measure (\<lambda>w. length (queue w))") (auto simp: set_body_shorter)

declare passes.simps [simp del]

text \<open>
  The tokens of a queue, and the states in which every token that has a timer handle has
  its own, no token is queued twice, and the queued tokens and the timers are of tokens
  already created. Every state a reset event reaches is one.
\<close>

fun tok_ids :: "entry list \<Rightarrow> nat list" where
  "tok_ids [] = []"
| "tok_ids (Tok a # q) = a # tok_ids q"
| "tok_ids (Undef # q) = tok_ids q"

definition well_formed :: "state \<Rightarrow> bool" where
  "well_formed w =
     ((\<forall>a h. timeoutId (tokens w a) = Some h \<longrightarrow> h = a) \<and>
      distinct (tok_ids (queue w)) \<and>
      (\<forall>a \<in> set (tok_ids (queue w)). a < tokenId w) \<and>
      (\<forall>a \<in> timers w. a < tokenId w))"

text \<open>A queue got from another by removing entries (and adding \<open>undefined\<close>).\<close>

definition thinned :: "entry list \<Rightarrow> entry list \<Rightarrow> bool" where
  "thinned q' q =
     ((distinct (tok_ids q) \<longrightarrow> distinct (tok_ids q')) \<and> set (tok_ids q') \<subseteq> set (tok_ids q))"







text \<open>
  The state in \<open>wait\<close> once the new token is placed (its callback invoked, or the token
  queued), before \<open>reduceQueue\<close> runs.
\<close>

definition placed :: "nat \<Rightarrow> delay \<Rightarrow> state \<Rightarrow> state" where
  "placed f timeout w =
     (let t = tokenId w;
          w0 = snd (createToken f w);
          w1 = (if truthy timeout
                then w0\<lparr>tokens := (tokens w0)(t := (tokens w0 t)\<lparr>timeoutId := Some t\<rparr>),
                        timers := insert t (timers w0)\<rparr>
                else w0)
      in if isSignaled w1
         then (let w' = executeCallback t w1;
                   w'' = w'\<lparr>callbacksCount := decr (callbacksCount w')\<rparr>
               in if is_zero (callbacksCount w'') then w''\<lparr>isSignaled := False\<rparr> else w'')
         else w1\<lparr>queue := queue w1 @ [Tok t]\<rparr>)"

text \<open>A sequence of calls of \<open>wait\<close>, each with its callback and timeout.\<close>

definition waits :: "(arg \<times> delay) list \<Rightarrow> event list" where
  "waits calls = map (\<lambda>(cb, timeout). CallWait cb timeout) calls"

text \<open>The equations that evaluate the operations on a given state.\<close>

lemmas eval_defs = waits_def step.simps ResetEvent_def defaultOptions_def wait_def
  createToken_def reduceQueue_def last_loop.simps first_loop.simps executeCallback_def
  clearTimeout_def cancel_token_def set_op_def set_loop.simps set_body_def reset_def fire_def
  pending_def queueSize_def without_def Let_def

section \<open>The overflow strategies\<close>

lemma last_loop_num:
  "last_loop q (JNum k) r = (drop (nat (k - 1)) q @ r, take (nat (k - 1)) q)"
proof (induction q "JNum k" r rule: last_loop.induct)
  case (1 q r)
  show ?case
  proof (cases "q \<noteq> [] \<and> length_gt (length q) (decr (JNum k))")
    case True
    then have ne: "q \<noteq> []" and "k - 1 < int (length q)" by auto
    then have lt: "nat (k - 1) < length q" by (cases q) auto
    have "last_loop q (JNum k) r = last_loop (butlast q) (JNum k) (last q # r)"
      using True by (subst last_loop.simps) simp
    also have "\<dots> = (drop (nat (k - 1)) (butlast q) @ last q # r, take (nat (k - 1)) (butlast q))"
      using 1 True by simp
    also have "take (nat (k - 1)) (butlast q) = take (nat (k - 1)) q"
      using lt by (simp add: take_butlast)
    also have "drop (nat (k - 1)) (butlast q) @ last q # r = drop (nat (k - 1)) q @ r"
    proof -
      have d: "drop (nat (k - 1)) q \<noteq> []" using lt by simp
      have "drop (nat (k - 1)) (butlast q) @ last q # r =
            (butlast (drop (nat (k - 1)) q) @ [last (drop (nat (k - 1)) q)]) @ r"
        using lt by (simp add: drop_butlast)
      then show ?thesis by (simp only: append_butlast_last_id [OF d])
    qed
    finally show ?thesis .
  next
    case False
    then have "last_loop q (JNum k) r = (r, q)" by (subst last_loop.simps) auto
    moreover have "drop (nat (k - 1)) q = [] \<and> take (nat (k - 1)) q = q"
      using False by (cases "q = []") auto
    ultimately show ?thesis by simp
  qed
qed

lemma last_loop_inf: "last_loop q JInfinity r = (r, q)"
  by (subst last_loop.simps) simp

lemma first_loop_num:
  "first_loop q (JNum k) r = (r @ take (length q - nat k) q, drop (length q - nat k) q)"
proof (induction q "JNum k" r rule: first_loop.induct)
  case (1 q r)
  show ?case
  proof (cases "q \<noteq> [] \<and> length_gt (length q) (JNum k)")
    case True
    then obtain x xs where q: "q = x # xs" by (cases q) auto
    have lt: "k < int (length q)" using True by simp
    then have suc: "length q - nat k = Suc (length xs - nat k)" using q by auto
    have "first_loop q (JNum k) r = first_loop (tl q) (JNum k) (r @ [hd q])"
      using True by (subst first_loop.simps) simp
    also have "\<dots> = ((r @ [hd q]) @ take (length (tl q) - nat k) (tl q),
                     drop (length (tl q) - nat k) (tl q))"
      using 1 True by simp
    finally show ?thesis using q suc by simp
  next
    case False
    then have "first_loop q (JNum k) r = (r, q)" by (subst first_loop.simps) auto
    moreover have "length q - nat k = 0" using False by (cases "q = []") auto
    ultimately show ?thesis by simp
  qed
qed

lemma reduceQueue_last:
  assumes "overflowStrategy opts = ''last''" "maxQueueSize opts = JNum m" "1 \<le> m"
    "m < int (length q)"
  shows "reduceQueue q opts = (drop (nat m - 1) (butlast q), take (nat m - 1) q @ [last q])"
proof -
  have ne: "q \<noteq> []" using assms by auto
  have n: "nat (m - 1) = nat m - 1" by simp
  have "nat m - 1 \<le> length q - 1" using assms by linarith
  then have "take (nat m - 1) (butlast q) = take (nat m - 1) q"
    using assms by (simp add: take_butlast)
  then show ?thesis
    using assms ne by (simp add: reduceQueue_def last_loop_num n)
qed

lemma reduceQueue_length:
  assumes "maxQueueSize opts = JNum m" "0 \<le> m"
    "overflowStrategy opts = ''this'' \<or> overflowStrategy opts = ''first'' \<or>
       (overflowStrategy opts = ''last'' \<and> 1 \<le> m)"
    "int (length q) \<le> m + 1"
  shows "int (length (snd (reduceQueue q opts))) \<le> m"
proof (cases "m < int (length q)")
  case False
  then show ?thesis using assms by (simp add: reduceQueue_def)
next
  case True
  then have ne: "q \<noteq> []" using assms by auto
  consider (this) "overflowStrategy opts = ''this''"
    | (first) "overflowStrategy opts = ''first''"
    | (last) "overflowStrategy opts = ''last''" "1 \<le> m"
    using assms by blast
  then show ?thesis
  proof cases
    case this
    then show ?thesis using assms True ne by (simp add: reduceQueue_def)
  next
    case first
    then show ?thesis using assms True ne by (simp add: reduceQueue_def first_loop_num)
  next
    case last
    then show ?thesis using assms True by (simp add: reduceQueue_last)
  qed
qed

lemma reduceQueue_empty:
  assumes "\<not> (is_number (maxQueueSize opts) \<and> length_gt 0 (maxQueueSize opts) \<and>
      overflowStrategy opts = ''last'')"
  shows "reduceQueue [] opts = ([], [])"
  using assms by (auto simp: reduceQueue_def first_loop.simps [of "[]"])

lemma tok_ids_append: "tok_ids (xs @ ys) = tok_ids xs @ tok_ids ys"
  by (induction xs rule: tok_ids.induct) auto

lemma thinned_refl: "thinned q q"
  by (simp add: thinned_def)

lemma thinned_take: "thinned (take n q) q"
proof -
  have "tok_ids q = tok_ids (take n q) @ tok_ids (drop n q)"
    by (simp add: tok_ids_append [symmetric])
  then show ?thesis by (auto simp: thinned_def)
qed

lemma thinned_drop: "thinned (drop n q) q"
proof -
  have "tok_ids q = tok_ids (take n q) @ tok_ids (drop n q)"
    by (simp add: tok_ids_append [symmetric])
  then show ?thesis by (auto simp: thinned_def)
qed

lemma thinned_butlast: "thinned (butlast q) q"
  using thinned_take [of "length q - 1" q] by (simp add: butlast_conv_take)

lemma thinned_last:
  assumes "q \<noteq> []"
  shows "thinned (take n (butlast q) @ [last q]) q"
proof -
  have "q = (take n (butlast q) @ drop n (butlast q)) @ [last q]" using assms by simp
  then have "tok_ids q =
      tok_ids (take n (butlast q)) @ tok_ids (drop n (butlast q)) @ tok_ids [last q]"
    by (metis tok_ids_append append.assoc)
  then show ?thesis by (auto simp: thinned_def tok_ids_append)
qed

lemma thinned_trans: "thinned a b \<Longrightarrow> thinned b c \<Longrightarrow> thinned a c"
  by (auto simp: thinned_def)

lemma thinned_tl: "thinned (tl q) q"
  using thinned_drop [of 1 q] by (simp add: drop_Suc)

lemma reduceQueue_thinned: "thinned (snd (reduceQueue q opts)) q"
proof (cases "maxQueueSize opts")
  case (JNum k)
  show ?thesis
  proof (cases "q = []")
    case True
    then show ?thesis
      using JNum
      by (auto simp: reduceQueue_def last_loop_num first_loop_num thinned_def
          split: prod.splits)
  next
    case False
    then show ?thesis
      using JNum thinned_last [OF False] thinned_drop thinned_butlast thinned_refl
      by (auto simp: reduceQueue_def last_loop_num first_loop_num)
  qed
qed (simp_all add: reduceQueue_def thinned_refl)

section \<open>The loop of \<open>set\<close>\<close>

lemma set_loop_empty: "queue w = [] \<Longrightarrow> set_loop w = Inr (w\<lparr>isSignaled := True\<rparr>)"
  by (subst set_loop.simps) simp

lemma set_loop_step:
  "queue w \<noteq> [] \<Longrightarrow>
   set_loop w = (case set_body w of Continue w' \<Rightarrow> set_loop w' | Return w' \<Rightarrow> Inr w'
                 | Throw e w' \<Rightarrow> Inl (e, w'))"
  by (subst set_loop.simps) simp

lemma set_body_canceled:
  assumes "queue w = Tok a # q" and "isCanceled (tokens w a)"
  shows "\<exists>w'. set_body w = Continue w' \<and> queue w' = q \<and>
           callbacksCount w' = incr (decr (callbacksCount w)) \<and> invoked w' = invoked w \<and>
           tokens w' = tokens w \<and> isSignaled w' = isSignaled w"
  using assms
  by (auto simp: set_body_def Let_def clearTimeout_def executeCallback_def split: option.splits)

lemma set_body_live:
  assumes "queue w = Tok a # q" and "\<not> isCanceled (tokens w a)"
  shows "\<exists>w'. set_body w = (if is_zero (decr (callbacksCount w)) then Return w' else Continue w') \<and>
           queue w' = q \<and> callbacksCount w' = decr (callbacksCount w) \<and>
           invoked w' = invoked w @ [a] \<and> tokens w' = tokens w \<and> isSignaled w' = isSignaled w"
  using assms
  by (auto simp: set_body_def Let_def clearTimeout_def executeCallback_def split: option.splits)

lemma set_body_frame:
  "tokens (state_of (set_body w)) = tokens w \<and> tokenId (state_of (set_body w)) = tokenId w \<and>
   options (state_of (set_body w)) = options w \<and>
   isSignaled (state_of (set_body w)) = isSignaled w \<and>
   timers (state_of (set_body w)) \<subseteq> timers w \<and>
   queue (state_of (set_body w)) = tl (queue w) \<and>
   callbacksCount (state_of (set_body w)) \<noteq> JUndefined"
  by (cases "callbacksCount w")
    (auto simp: set_body_def Let_def clearTimeout_def executeCallback_def
      split: entry.splits option.splits)


lemma set_body_timers:
  assumes "queue w = Tok b # q"
  shows "timers (state_of (set_body w)) =
     (case timeoutId (tokens w b) of
        Some h \<Rightarrow> if gt_zero (decr (callbacksCount w)) then timers w - {h} else timers w
      | None \<Rightarrow> timers w)"
  using assms
  by (auto simp: set_body_def Let_def clearTimeout_def executeCallback_def split: option.splits)

lemma set_loop_frame:
  "tokens (left_by (set_loop w)) = tokens w \<and> tokenId (left_by (set_loop w)) = tokenId w \<and>
   options (left_by (set_loop w)) = options w \<and> timers (left_by (set_loop w)) \<subseteq> timers w"
proof (induction w rule: set_loop.induct)
  case (1 w)
  show ?case
  proof (cases "queue w = []")
    case True
    then show ?thesis by (simp add: set_loop_empty)
  next
    case False
    show ?thesis
    proof (cases "set_body w")
      case (Continue w')
      then have "state_of (set_body w) = w'" by simp
      then have "tokens w' = tokens w" "tokenId w' = tokenId w" "options w' = options w"
        "timers w' \<subseteq> timers w"
        using set_body_frame [of w] by auto
      moreover have "set_loop w = set_loop w'" using False Continue by (simp add: set_loop_step)
      ultimately show ?thesis using 1 [OF False Continue] by auto
    next
      case (Return w')
      then show ?thesis using False set_body_frame [of w] by (simp add: set_loop_step)
    next
      case (Throw e w')
      then show ?thesis using False set_body_frame [of w] by (simp add: set_loop_step)
    qed
  qed
qed


lemma set_loop_queue: "length (queue (left_by (set_loop w))) \<le> length (queue w)"
proof (induction w rule: set_loop.induct)
  case (1 w)
  show ?case
  proof (cases "queue w = []")
    case True
    then show ?thesis by (simp add: set_loop_empty)
  next
    case False
    have q: "queue (state_of (set_body w)) = tl (queue w)" using set_body_frame [of w] by simp
    show ?thesis
    proof (cases "set_body w")
      case (Continue w')
      then have "length (queue w') \<le> length (queue w)" using q by simp
      moreover have "set_loop w = set_loop w'" using False Continue by (simp add: set_loop_step)
      ultimately show ?thesis using 1 [OF False Continue] by simp
    next
      case (Return w')
      then show ?thesis using False q by (simp add: set_loop_step)
    next
      case (Throw e w')
      then show ?thesis using False q by (simp add: set_loop_step)
    qed
  qed
qed

lemma set_loop_thinned: "thinned (queue (left_by (set_loop w))) (queue w)"
proof (induction w rule: set_loop.induct)
  case (1 w)
  show ?case
  proof (cases "queue w = []")
    case True
    then show ?thesis by (simp add: set_loop_empty thinned_refl)
  next
    case False
    have q: "queue (state_of (set_body w)) = tl (queue w)" using set_body_frame [of w] by simp
    show ?thesis
    proof (cases "set_body w")
      case (Continue w')
      then have "thinned (queue w') (queue w)" using q by (simp add: thinned_tl)
      moreover have "set_loop w = set_loop w'" using False Continue by (simp add: set_loop_step)
      ultimately show ?thesis using 1 [OF False Continue] thinned_trans by simp
    next
      case (Return w')
      then show ?thesis using False q by (simp add: set_loop_step thinned_tl)
    next
      case (Throw e w')
      then show ?thesis using False q by (simp add: set_loop_step thinned_tl)
    qed
  qed
qed

lemma set_loop_signaled:
  "\<not> isSignaled w \<Longrightarrow>
   isSignaled (left_by (set_loop w)) \<longrightarrow> queue (left_by (set_loop w)) = []"
proof (induction w rule: set_loop.induct)
  case (1 w)
  show ?case
  proof (cases "queue w = []")
    case True
    then show ?thesis by (simp add: set_loop_empty)
  next
    case False
    show ?thesis
    proof (cases "set_body w")
      case (Continue w')
      then have "state_of (set_body w) = w'" by simp
      then have "\<not> isSignaled w'" using set_body_frame [of w] "1.prems" by auto
      moreover have "set_loop w = set_loop w'" using False Continue by (simp add: set_loop_step)
      ultimately show ?thesis using "1.IH" [OF False Continue] by simp
    next
      case (Return w')
      then have "state_of (set_body w) = w'" by simp
      then have "\<not> isSignaled w'" using set_body_frame [of w] "1.prems" by auto
      then show ?thesis using False Return by (simp add: set_loop_step)
    next
      case (Throw e w')
      then have "state_of (set_body w) = w'" by simp
      then have "\<not> isSignaled w'" using set_body_frame [of w] "1.prems" by auto
      then show ?thesis using False Throw by (simp add: set_loop_step)
    qed
  qed
qed

lemma set_loop_returns:
  "Undef \<notin> set (queue w) \<Longrightarrow> \<exists>w'. set_loop w = Inr w'"
proof (induction "queue w" arbitrary: w)
  case Nil
  then show ?case by (simp add: set_loop_empty)
next
  case (Cons e q)
  from Cons.hyps(2) [symmetric] Cons.prems obtain a where qw: "queue w = Tok a # q"
    by (cases e) auto
  show ?case
  proof (cases "isCanceled (tokens w a)")
    case True
    from set_body_canceled [OF qw True] obtain w1 where
      w1: "set_body w = Continue w1" "queue w1 = q" by blast
    then have "\<exists>w'. set_loop w1 = Inr w'" using Cons.prems qw by (intro Cons.hyps(1)) auto
    then show ?thesis using w1 qw by (simp add: set_loop_step)
  next
    case False
    from set_body_live [OF qw False] obtain w1 where
      w1: "set_body w = (if is_zero (decr (callbacksCount w)) then Return w1 else Continue w1)"
        "queue w1 = q" by blast
    then have "\<exists>w'. set_loop w1 = Inr w'" using Cons.prems qw by (intro Cons.hyps(1)) auto
    then show ?thesis using w1 qw by (simp add: set_loop_step)
  qed
qed

lemma set_loop_exhausts:
  assumes "callbacksCount w = JNum k" and "1 \<le> k" and "k \<le> int (length (pending w))"
    and "Undef \<notin> set (queue w)"
  shows "\<exists>w'. set_loop w = Inr w' \<and> invoked w' = invoked w @ take (nat k) (pending w) \<and>
           isSignaled w' = isSignaled w \<and> tokens w' = tokens w \<and>
           pending w' = drop (nat k) (pending w) \<and>
           (\<exists>n. queue w' = drop n (queue w)) \<and>
           ((\<forall>b. Tok b \<in> set (queue w) \<longrightarrow> \<not> isCanceled (tokens w b)) \<longrightarrow> queue w' = drop (nat k) (queue w))"
  using assms
proof (induction "queue w" arbitrary: w k)
  case Nil
  then show ?case by (simp add: pending_def)
next
  case (Cons e q)
  from Cons.hyps(2) [symmetric] Cons.prems(4) obtain a where qw: "queue w = Tok a # q"
    by (cases e) auto
  have ne: "queue w \<noteq> []" using qw by simp
  show ?case
  proof (cases "isCanceled (tokens w a)")
    case True
    from set_body_canceled [OF qw True] obtain w1 where
      w1: "set_body w = Continue w1" "queue w1 = q"
        "callbacksCount w1 = incr (decr (callbacksCount w))" "invoked w1 = invoked w"
        "tokens w1 = tokens w" "isSignaled w1 = isSignaled w"
      by blast
    have p: "pending w1 = pending w" using w1 qw True by (simp add: pending_def)
    have "\<exists>w'. set_loop w1 = Inr w' \<and> invoked w' = invoked w1 @ take (nat k) (pending w1) \<and>
           isSignaled w' = isSignaled w1 \<and> tokens w' = tokens w1 \<and>
           pending w' = drop (nat k) (pending w1) \<and>
           (\<exists>n. queue w' = drop n (queue w1)) \<and>
           ((\<forall>b. Tok b \<in> set (queue w1) \<longrightarrow> \<not> isCanceled (tokens w1 b)) \<longrightarrow> queue w' = drop (nat k) (queue w1))"
      using Cons.prems w1 p qw by (intro Cons.hyps(1)) auto
    then obtain w' n where
      w': "set_loop w1 = Inr w'" "invoked w' = invoked w1 @ take (nat k) (pending w1)"
        "isSignaled w' = isSignaled w1" "tokens w' = tokens w1"
        "pending w' = drop (nat k) (pending w1)" "queue w' = drop n (queue w1)"
      by blast
    have "queue w' = drop (Suc n) (queue w)" using w' w1 qw by simp
    moreover have "\<not> (\<forall>b. Tok b \<in> set (queue w) \<longrightarrow> \<not> isCanceled (tokens w b))"
      using qw True by auto
    moreover have "set_loop w = Inr w'" using w1 w' ne by (simp add: set_loop_step)
    ultimately show ?thesis using w' w1 p by auto
  next
    case False
    from set_body_live [OF qw False] obtain w1 where
      w1: "set_body w = (if is_zero (decr (callbacksCount w)) then Return w1 else Continue w1)"
        "queue w1 = q" "callbacksCount w1 = decr (callbacksCount w)"
        "invoked w1 = invoked w @ [a]" "tokens w1 = tokens w" "isSignaled w1 = isSignaled w"
      by blast
    have p: "pending w = a # pending w1" using w1 qw False by (simp add: pending_def)
    have all: "(\<forall>b. Tok b \<in> set (queue w) \<longrightarrow> \<not> isCanceled (tokens w b)) \<longrightarrow>
        (\<forall>b. Tok b \<in> set (queue w1) \<longrightarrow> \<not> isCanceled (tokens w1 b))"
      using p qw w1 by simp
    show ?thesis
    proof (cases "k = 1")
      case True
      then have "set_loop w = Inr w1" using w1 ne Cons.prems by (simp add: set_loop_step)
      moreover have "queue w1 = drop 1 (queue w)" using w1 qw by simp
      ultimately show ?thesis using True w1 p by auto
    next
      case k: False
      have "\<exists>w'. set_loop w1 = Inr w' \<and> invoked w' = invoked w1 @ take (nat (k - 1)) (pending w1) \<and>
           isSignaled w' = isSignaled w1 \<and> tokens w' = tokens w1 \<and>
           pending w' = drop (nat (k - 1)) (pending w1) \<and>
           (\<exists>n. queue w' = drop n (queue w1)) \<and>
           ((\<forall>b. Tok b \<in> set (queue w1) \<longrightarrow> \<not> isCanceled (tokens w1 b)) \<longrightarrow>
              queue w' = drop (nat (k - 1)) (queue w1))"
        using Cons.prems w1 p qw k by (intro Cons.hyps(1)) auto
      then obtain w' n where
        w': "set_loop w1 = Inr w'" "invoked w' = invoked w1 @ take (nat (k - 1)) (pending w1)"
          "isSignaled w' = isSignaled w1" "tokens w' = tokens w1"
          "pending w' = drop (nat (k - 1)) (pending w1)" "queue w' = drop n (queue w1)"
          "(\<forall>b. Tok b \<in> set (queue w1) \<longrightarrow> \<not> isCanceled (tokens w1 b)) \<longrightarrow>
              queue w' = drop (nat (k - 1)) (queue w1)"
        by blast
      have nk: "nat k = Suc (nat (k - 1))" using Cons.prems k by auto
      have "set_loop w = Inr w'" using w1 w' ne Cons.prems k by (simp add: set_loop_step)
      moreover have "queue w' = drop (Suc n) (queue w)" using w' w1 qw by simp
      moreover have "(\<forall>b. Tok b \<in> set (queue w) \<longrightarrow> \<not> isCanceled (tokens w b)) \<longrightarrow>
          queue w' = drop (nat k) (queue w)"
        using all w' w1 qw nk by simp
      ultimately show ?thesis using w' w1 p nk by auto
    qed
  qed
qed

lemma set_loop_drains:
  assumes "callbacksCount w = JInfinity \<or>
      (\<exists>k. callbacksCount w = JNum k \<and> int (length (pending w)) < k)"
    and "Undef \<notin> set (queue w)"
  shows "\<exists>w'. set_loop w = Inr w' \<and> invoked w' = invoked w @ pending w \<and> queue w' = [] \<and>
           isSignaled w' \<and> tokens w' = tokens w"
  using assms
proof (induction "queue w" arbitrary: w)
  case Nil
  then show ?case by (simp add: set_loop_empty pending_def)
next
  case (Cons e q)
  from Cons.hyps(2) [symmetric] Cons.prems(2) obtain a where qw: "queue w = Tok a # q"
    by (cases e) auto
  have ne: "queue w \<noteq> []" using qw by simp
  show ?case
  proof (cases "isCanceled (tokens w a)")
    case True
    from set_body_canceled [OF qw True] obtain w1 where
      w1: "set_body w = Continue w1" "queue w1 = q"
        "callbacksCount w1 = incr (decr (callbacksCount w))" "invoked w1 = invoked w"
        "tokens w1 = tokens w" "isSignaled w1 = isSignaled w"
      by blast
    have p: "pending w1 = pending w" using w1 qw True by (simp add: pending_def)
    have c: "callbacksCount w1 = callbacksCount w" using w1 Cons.prems(1) by auto
    have "\<exists>w'. set_loop w1 = Inr w' \<and> invoked w' = invoked w1 @ pending w1 \<and> queue w' = [] \<and>
           isSignaled w' \<and> tokens w' = tokens w1"
      using Cons.prems w1 p c qw by (intro Cons.hyps(1)) auto
    moreover have "set_loop w = set_loop w1" using w1 ne by (simp add: set_loop_step)
    ultimately show ?thesis using w1 p by auto
  next
    case False
    from set_body_live [OF qw False] obtain w1 where
      w1: "set_body w = (if is_zero (decr (callbacksCount w)) then Return w1 else Continue w1)"
        "queue w1 = q" "callbacksCount w1 = decr (callbacksCount w)"
        "invoked w1 = invoked w @ [a]" "tokens w1 = tokens w" "isSignaled w1 = isSignaled w"
      by blast
    have p: "pending w = a # pending w1" using w1 qw False by (simp add: pending_def)
    have nz: "\<not> is_zero (decr (callbacksCount w))" using Cons.prems(1) p by auto
    have c: "callbacksCount w1 = JInfinity \<or>
        (\<exists>k. callbacksCount w1 = JNum k \<and> int (length (pending w1)) < k)"
      using Cons.prems(1) p w1 by auto
    have "\<exists>w'. set_loop w1 = Inr w' \<and> invoked w' = invoked w1 @ pending w1 \<and> queue w' = [] \<and>
           isSignaled w' \<and> tokens w' = tokens w1"
      using Cons.prems w1 c qw by (intro Cons.hyps(1)) auto
    moreover have "set_loop w = set_loop w1" using w1 ne nz by (simp add: set_loop_step)
    ultimately show ?thesis using w1 p by auto
  qed
qed

lemma set_loop_never_zero:
  assumes "\<not> (\<exists>k. callbacksCount w = JNum k \<and> 1 \<le> k \<and> k \<le> int (length (pending w)))"
    and "Undef \<notin> set (queue w)"
  shows "\<exists>w'. set_loop w = Inr w' \<and> invoked w' = invoked w @ pending w \<and> queue w' = [] \<and>
           isSignaled w' \<and> tokens w' = tokens w"
  using assms
proof (induction "queue w" arbitrary: w)
  case Nil
  then show ?case by (simp add: set_loop_empty pending_def)
next
  case (Cons e q)
  from Cons.hyps(2) [symmetric] Cons.prems(2) obtain a where qw: "queue w = Tok a # q"
    by (cases e) auto
  have ne: "queue w \<noteq> []" using qw by simp
  show ?case
  proof (cases "isCanceled (tokens w a)")
    case True
    from set_body_canceled [OF qw True] obtain w1 where
      w1: "set_body w = Continue w1" "queue w1 = q"
        "callbacksCount w1 = incr (decr (callbacksCount w))" "invoked w1 = invoked w"
        "tokens w1 = tokens w" "isSignaled w1 = isSignaled w"
      by blast
    have p: "pending w1 = pending w" using w1 qw True by (simp add: pending_def)
    have c: "\<not> (\<exists>k. callbacksCount w1 = JNum k \<and> 1 \<le> k \<and> k \<le> int (length (pending w1)))"
      using w1(3) p Cons.prems(1) by (cases "callbacksCount w") auto
    have "\<exists>w'. set_loop w1 = Inr w' \<and> invoked w' = invoked w1 @ pending w1 \<and> queue w' = [] \<and>
           isSignaled w' \<and> tokens w' = tokens w1"
      using Cons.prems(2) w1 c qw by (intro Cons.hyps(1)) auto
    moreover have "set_loop w = set_loop w1" using w1 ne by (simp add: set_loop_step)
    ultimately show ?thesis using w1 p by auto
  next
    case False
    from set_body_live [OF qw False] obtain w1 where
      w1: "set_body w = (if is_zero (decr (callbacksCount w)) then Return w1 else Continue w1)"
        "queue w1 = q" "callbacksCount w1 = decr (callbacksCount w)"
        "invoked w1 = invoked w @ [a]" "tokens w1 = tokens w" "isSignaled w1 = isSignaled w"
      by blast
    have p: "pending w = a # pending w1" using w1 qw False by (simp add: pending_def)
    have nz: "\<not> is_zero (decr (callbacksCount w))"
      using Cons.prems(1) p by (cases "callbacksCount w") auto
    have c: "\<not> (\<exists>k. callbacksCount w1 = JNum k \<and> 1 \<le> k \<and> k \<le> int (length (pending w1)))"
      using w1(3) p Cons.prems(1) by (cases "callbacksCount w") auto
    have "\<exists>w'. set_loop w1 = Inr w' \<and> invoked w' = invoked w1 @ pending w1 \<and> queue w' = [] \<and>
           isSignaled w' \<and> tokens w' = tokens w1"
      using Cons.prems(2) w1 c qw by (intro Cons.hyps(1)) auto
    moreover have "set_loop w = set_loop w1" using w1 ne nz by (simp add: set_loop_step)
    ultimately show ?thesis using w1 p by auto
  qed
qed

lemma passes_empty: "queue w = [] \<Longrightarrow> passes w = []"
  by (subst passes.simps) simp

lemma passes_step:
  "queue w \<noteq> [] \<Longrightarrow>
   passes w = w # (case set_body w of Continue w' \<Rightarrow> passes w' | Return w' \<Rightarrow> []
                   | Throw e w' \<Rightarrow> [])"
  by (subst passes.simps) simp

lemma passes_head: "queue w \<noteq> [] \<Longrightarrow> w \<in> set (passes w)"
  by (simp add: passes_step)

lemma passes_next:
  assumes "queue w \<noteq> []" and "set_body w = Continue w'" and "queue w' \<noteq> []"
  shows "w' \<in> set (passes w)"
  using assms passes_head [of w'] by (simp add: passes_step)

lemma passes_queue: "i < length (passes w) \<Longrightarrow> queue (passes w ! i) = drop i (queue w)"
proof (induction w arbitrary: i rule: passes.induct)
  case (1 w)
  from "1.prems" have ne: "queue w \<noteq> []" by (auto simp: passes_empty)
  have q: "queue (state_of (set_body w)) = tl (queue w)" using set_body_frame [of w] by simp
  show ?case
  proof (cases i)
    case 0
    then show ?thesis using ne by (simp add: passes_step)
  next
    case (Suc j)
    show ?thesis
    proof (cases "set_body w")
      case (Continue w')
      then have "j < length (passes w')" using "1.prems" Suc ne by (simp add: passes_step)
      then have "queue (passes w' ! j) = drop j (queue w')" using "1.IH" [OF ne Continue] by simp
      then show ?thesis using Continue Suc ne q by (simp add: passes_step drop_Suc)
    next
      case (Return w')
      then show ?thesis using "1.prems" Suc ne by (simp add: passes_step)
    next
      case (Throw e w')
      then show ?thesis using "1.prems" Suc ne by (simp add: passes_step)
    qed
  qed
qed

lemma set_loop_popped:
  "queue (left_by (set_loop w)) = drop (length (passes w)) (queue w)"
proof (induction w rule: set_loop.induct)
  case (1 w)
  show ?case
  proof (cases "queue w = []")
    case True
    then show ?thesis by (simp add: set_loop_empty passes_empty)
  next
    case False
    have q: "queue (state_of (set_body w)) = tl (queue w)" using set_body_frame [of w] by simp
    show ?thesis
    proof (cases "set_body w")
      case (Continue w')
      then show ?thesis
        using 1 [OF False Continue] False q by (simp add: set_loop_step passes_step drop_Suc)
    next
      case (Return w')
      then show ?thesis using False q by (simp add: set_loop_step passes_step drop_Suc)
    next
      case (Throw e w')
      then show ?thesis using False q by (simp add: set_loop_step passes_step drop_Suc)
    qed
  qed
qed

section \<open>What \<open>wait\<close> leaves behind\<close>

lemma cancel_reduced_frame:
  "queue (left_by (cancel_reduced rs w)) = queue w \<and>
   isSignaled (left_by (cancel_reduced rs w)) = isSignaled w \<and>
   callbacksCount (left_by (cancel_reduced rs w)) = callbacksCount w \<and>
   options (left_by (cancel_reduced rs w)) = options w \<and>
   tokenId (left_by (cancel_reduced rs w)) = tokenId w \<and>
   invoked (left_by (cancel_reduced rs w)) = invoked w"
  by (induction rs w rule: cancel_reduced.induct)
    (auto simp: cancel_token_def Let_def clearTimeout_def split: option.splits)

lemma left_by_token: 
  "left_by (map_sum id snd (case r of Inl e \<Rightarrow> Inl e | Inr w \<Rightarrow> Inr (t, w))) = left_by r"
  by (cases r) auto

lemma cancel_token_frame:
  "(isCanceled (tokens w a) \<longrightarrow> isCanceled (tokens (cancel_token b w) a)) \<and>
   timeoutId (tokens (cancel_token b w) a) = timeoutId (tokens w a) \<and>
   timers (cancel_token b w) \<subseteq> timers w"
  by (auto simp: cancel_token_def Let_def clearTimeout_def split: option.splits)

lemma cancel_reduced_tokens:
  "(isCanceled (tokens w a) \<longrightarrow> isCanceled (tokens (left_by (cancel_reduced rs w)) a)) \<and>
   timeoutId (tokens (left_by (cancel_reduced rs w)) a) = timeoutId (tokens w a) \<and>
   timers (left_by (cancel_reduced rs w)) \<subseteq> timers w"
proof (induction rs w rule: cancel_reduced.induct)
  case (3 b rs w)
  then show ?case using cancel_token_frame [of w a b] by auto
qed simp_all

lemma cancel_token_timer:
  assumes "\<forall>b h. timeoutId (tokens p b) = Some h \<longrightarrow> h = b"
    and "t \<in> timers p \<longrightarrow> timeoutId (tokens p t) = Some t"
  shows "(\<forall>b h. timeoutId (tokens (cancel_token a p) b) = Some h \<longrightarrow> h = b) \<and>
         (t \<in> timers (cancel_token a p) \<longrightarrow> timeoutId (tokens (cancel_token a p) t) = Some t) \<and>
         (a = t \<longrightarrow> t \<notin> timers (cancel_token a p) \<and> isCanceled (tokens (cancel_token a p) t)) \<and>
         (a \<noteq> t \<longrightarrow> (t \<in> timers (cancel_token a p)) = (t \<in> timers p) \<and>
            isCanceled (tokens (cancel_token a p) t) = isCanceled (tokens p t))"
  using assms
  by (auto simp: cancel_token_def Let_def clearTimeout_def split: option.splits)

lemma cancel_reduced_timer:
  assumes "\<forall>b h. timeoutId (tokens p b) = Some h \<longrightarrow> h = b"
    and "t \<in> timers p \<longrightarrow> timeoutId (tokens p t) = Some t"
    and "isCanceled (tokens p t) \<longrightarrow> t \<notin> timers p"
  shows "(t \<in> timers (left_by (cancel_reduced rs p))) =
         (t \<in> timers p \<and> \<not> isCanceled (tokens (left_by (cancel_reduced rs p)) t))"
  using assms
proof (induction rs p rule: cancel_reduced.induct)
  case (1 w)
  then show ?case by auto
next
  case (2 rs w)
  then show ?case by auto
next
  case (3 a rs w)
  note c = cancel_token_timer [OF "3.prems"(1,2), of a]
  let ?p = "cancel_token a w"
  have i: "(t \<in> timers (left_by (cancel_reduced rs ?p))) =
      (t \<in> timers ?p \<and> \<not> isCanceled (tokens (left_by (cancel_reduced rs ?p)) t))"
    using c "3.prems"(3) by (intro "3.IH") auto
  show ?case
  proof (cases "a = t")
    case True
    then have "t \<notin> timers ?p" "isCanceled (tokens ?p t)" using c by auto
    then have "isCanceled (tokens (left_by (cancel_reduced rs ?p)) t)"
      using cancel_reduced_tokens [of ?p t rs] by simp
    then show ?thesis using i \<open>t \<notin> timers ?p\<close> by simp
  next
    case False
    then show ?thesis using i c by simp
  qed
qed

lemma step_wait:
  "step (CallWait (Function f) timeout) w =
     left_by (cancel_reduced (fst (reduceQueue (queue (placed f timeout w)) (options w)))
       ((placed f timeout w)
          \<lparr>queue := snd (reduceQueue (queue (placed f timeout w)) (options w))\<rparr>))"
  by (simp add: step.simps wait_def placed_def createToken_def Let_def executeCallback_def
      left_by_token split: prod.splits)

lemma placed_frame:
  "tokenId (placed f timeout w) = Suc (tokenId w) \<and>
   options (placed f timeout w) = options w \<and>
   invoked (placed f timeout w) = (if isSignaled w then invoked w @ [tokenId w] else invoked w) \<and>
   timers (placed f timeout w) =
     (if truthy timeout then insert (tokenId w) (timers w) else timers w) \<and>
   tokens (placed f timeout w) = (tokens w)(tokenId w :=
     \<lparr>token_id = tokenId w, isCanceled = False, callback = f,
      timeoutId = (if truthy timeout then Some (tokenId w) else None)\<rparr>) \<and>
   queue (placed f timeout w) = (if isSignaled w then queue w else queue w @ [Tok (tokenId w)]) \<and>
   isSignaled (placed f timeout w) = (isSignaled w \<and> \<not> is_zero (decr (callbacksCount w)))"
  by (simp add: placed_def createToken_def Let_def executeCallback_def)

lemma wait_not_function: "step (CallWait NotFunction timeout) w = w"
  by (simp add: step.simps wait_def)

lemma wait_returns:
  assumes "wait (Function f) timeout w = Inr (t, w')"
  shows "t = tokenId w \<and> w' = step (CallWait (Function f) timeout) w"
  using assms
  by (auto simp: step.simps wait_def createToken_def Let_def split: prod.splits sum.splits)

lemma wait_queue:
  "queue (step (CallWait (Function f) timeout) w) =
     snd (reduceQueue (if isSignaled w then queue w else queue w @ [Tok (tokenId w)]) (options w))"
  by (simp add: step.simps wait_def createToken_def Let_def executeCallback_def left_by_token
      cancel_reduced_frame split: prod.splits)

lemma wait_isSignaled:
  "isSignaled (step (CallWait (Function f) timeout) w) =
     (isSignaled w \<and> \<not> is_zero (decr (callbacksCount w)))"
  by (simp add: step.simps wait_def createToken_def Let_def executeCallback_def left_by_token
      cancel_reduced_frame split: prod.splits)

lemma wait_options: "options (step (CallWait cb timeout) w) = options w"
  by (cases cb) (simp_all add: step.simps wait_def createToken_def Let_def executeCallback_def left_by_token
      cancel_reduced_frame split: prod.splits)

lemma wait_tokenId: "tokenId (step (CallWait (Function f) timeout) w) = Suc (tokenId w)"
  by (simp add: step_wait cancel_reduced_frame placed_frame)


lemma wait_timers:
  "timers (step (CallWait (Function f) timeout) w) \<subseteq>
     (if truthy timeout then insert (tokenId w) (timers w) else timers w)"
proof -
  let ?p = "(placed f timeout w)
      \<lparr>queue := snd (reduceQueue (queue (placed f timeout w)) (options w))\<rparr>"
  have "timers (step (CallWait (Function f) timeout) w) \<subseteq> timers ?p"
    unfolding step_wait using cancel_reduced_tokens by blast
  then show ?thesis by (simp add: placed_frame)
qed

lemma wait_tokens:
  assumes "a \<noteq> tokenId w"
  shows "(isCanceled (tokens w a) \<longrightarrow>
            isCanceled (tokens (step (CallWait (Function f) timeout) w) a)) \<and>
         timeoutId (tokens (step (CallWait (Function f) timeout) w) a) = timeoutId (tokens w a)"
proof -
  let ?p = "(placed f timeout w)
      \<lparr>queue := snd (reduceQueue (queue (placed f timeout w)) (options w))\<rparr>"
  have "tokens ?p a = tokens w a" using assms by (simp add: placed_frame)
  then show ?thesis
    unfolding step_wait
    using cancel_reduced_tokens
      [of ?p a "fst (reduceQueue (queue (placed f timeout w)) (options w))"]
    by simp
qed

lemma wait_new_token:
  "timeoutId (tokens (step (CallWait (Function f) timeout) w) (tokenId w)) =
     (if truthy timeout then Some (tokenId w) else None)"
proof -
  let ?p = "(placed f timeout w)
      \<lparr>queue := snd (reduceQueue (queue (placed f timeout w)) (options w))\<rparr>"
  have "timeoutId (tokens ?p (tokenId w)) = (if truthy timeout then Some (tokenId w) else None)"
    by (simp add: placed_frame)
  then show ?thesis
    unfolding step_wait
    using cancel_reduced_tokens
      [of ?p "tokenId w" "fst (reduceQueue (queue (placed f timeout w)) (options w))"]
    by simp
qed

section \<open>One event, and many\<close>

lemma step_set:
  "step CallSet w =
     (if isSignaled w then w
      else left_by (set_loop (w\<lparr>callbacksCount := autoResetCount (options w)\<rparr>)))"
  by (simp add: step.simps set_op_def)

lemma step_reset: "step CallReset w = w\<lparr>isSignaled := False\<rparr>"
  by (cases w) (simp add: step.simps reset_def)

lemma step_options: "options (step e w) = options w"
proof (cases e)
  case CallSet
  then show ?thesis
    using set_loop_frame [of "w\<lparr>callbacksCount := autoResetCount (options w)\<rparr>"]
    by (simp add: step_set)
next
  case (TimerFires h)
  then show ?thesis by (simp add: step.simps fire_def)
qed (simp_all add: step_reset wait_options)

lemma step_tokenId: "tokenId w \<le> tokenId (step e w)"
proof (cases e)
  case CallSet
  then show ?thesis
    using set_loop_frame [of "w\<lparr>callbacksCount := autoResetCount (options w)\<rparr>"]
    by (simp add: step_set)
next
  case (CallWait cb timeout)
  then show ?thesis by (cases cb) (simp_all add: wait_not_function wait_tokenId)
qed (simp_all add: step_reset step.simps fire_def)

lemma step_timers:
  "timers (step e w) \<subseteq> timers w \<union> {h. tokenId w \<le> h \<and> h < tokenId (step e w)}"
proof (cases e)
  case CallSet
  then show ?thesis
    using set_loop_frame [of "w\<lparr>callbacksCount := autoResetCount (options w)\<rparr>"]
    by (auto simp: step_set)
next
  case (CallWait cb timeout)
  show ?thesis
  proof (cases cb)
    case NotFunction
    then show ?thesis using CallWait by (simp add: wait_not_function)
  next
    case (Function f)
    then show ?thesis
      using CallWait wait_timers [of f timeout w] by (auto simp: wait_tokenId split: if_splits)
  qed
qed (auto simp: step_reset step.simps fire_def)

lemma step_no_timer:
  assumes "a < tokenId w" and "a \<notin> timers w"
  shows "a < tokenId (step e w) \<and> a \<notin> timers (step e w)"
  using assms step_tokenId [of w e] step_timers [of e w] by auto

lemma run_no_timer:
  "a < tokenId w \<Longrightarrow> a \<notin> timers w \<Longrightarrow> a < tokenId (run es w) \<and> a \<notin> timers (run es w)"
proof (induction es arbitrary: w)
  case Nil
  then show ?case by simp
next
  case (Cons e es)
  then show ?case using step_no_timer [of a w e] by simp
qed

lemma step_timers_allocated:
  assumes "\<forall>h \<in> timers w. h < tokenId w"
  shows "\<forall>h \<in> timers (step e w). h < tokenId (step e w)"
  using assms step_tokenId [of w e] step_timers [of e w] by fastforce

lemma reachable_timers_allocated:
  "(\<forall>h \<in> timers w. h < tokenId w) \<Longrightarrow> \<forall>h \<in> timers (run es w). h < tokenId (run es w)"
proof (induction es arbitrary: w)
  case Nil
  then show ?case by simp
next
  case (Cons e es)
  then show ?case using step_timers_allocated [of w e] by simp
qed



lemma step_keeps_bound:
  assumes "maxQueueSize (options w) = JNum m" and "0 \<le> m"
    and "overflowStrategy (options w) = ''this'' \<or> overflowStrategy (options w) = ''first'' \<or>
       (overflowStrategy (options w) = ''last'' \<and> 1 \<le> m)"
    and "int (length (queue w)) \<le> m"
  shows "int (length (queue (step e w))) \<le> m"
proof (cases e)
  case CallReset
  then show ?thesis using assms by (simp add: step_reset)
next
  case CallSet
  then show ?thesis
    using assms(4) set_loop_queue [of "w\<lparr>callbacksCount := autoResetCount (options w)\<rparr>"]
    by (simp add: step_set)
next
  case (CallWait cb timeout)
  show ?thesis
  proof (cases cb)
    case NotFunction
    then show ?thesis using CallWait assms by (simp add: wait_not_function)
  next
    case (Function f)
    have "int (length (snd (reduceQueue
        (if isSignaled w then queue w else queue w @ [Tok (tokenId w)]) (options w)))) \<le> m"
      using assms by (intro reduceQueue_length) auto
    then show ?thesis using CallWait Function by (simp add: wait_queue)
  qed
next
  case (TimerFires h)
  then show ?thesis using assms by (simp add: step.simps fire_def)
qed

lemma run_keeps_bound:
  assumes "maxQueueSize (options w) = JNum m" and "0 \<le> m"
    and "overflowStrategy (options w) = ''this'' \<or> overflowStrategy (options w) = ''first'' \<or>
       (overflowStrategy (options w) = ''last'' \<and> 1 \<le> m)"
    and "int (length (queue w)) \<le> m"
  shows "int (length (queue (run es w))) \<le> m \<and> options (run es w) = options w"
  using assms
proof (induction es arbitrary: w)
  case Nil
  then show ?case by simp
next
  case (Cons e es)
  have "int (length (queue (step e w))) \<le> m" using Cons.prems by (intro step_keeps_bound) auto
  then have "int (length (queue (run es (step e w)))) \<le> m \<and>
      options (run es (step e w)) = options (step e w)"
    using Cons.prems by (intro Cons.IH) (auto simp: step_options)
  then show ?case by (simp add: step_options)
qed

lemma waits_closed:
  "\<not> isSignaled w \<Longrightarrow> \<not> isSignaled (run (waits calls) w)"
proof (induction calls arbitrary: w)
  case Nil
  then show ?case by (simp add: waits_def)
next
  case (Cons c calls)
  obtain cb timeout where c: "c = (cb, timeout)" by (cases c)
  have "\<not> isSignaled (step (CallWait cb timeout) w)"
    using Cons.prems by (cases cb) (simp_all add: wait_not_function wait_isSignaled)
  then have "\<not> isSignaled (run (waits calls) (step (CallWait cb timeout) w))" by (rule Cons.IH)
  then show ?case using c by (simp add: waits_def)
qed

lemma well_formed_new: "well_formed (ResetEvent s opts)"
  by (simp add: well_formed_def ResetEvent_def)

lemma well_formed_step:
  assumes "well_formed w"
  shows "well_formed (step e w)"
proof (cases e)
  case CallReset
  then show ?thesis using assms by (simp add: step_reset well_formed_def)
next
  case CallSet
  let ?v = "w\<lparr>callbacksCount := autoResetCount (options w)\<rparr>"
  have "thinned (queue (left_by (set_loop ?v))) (queue w)"
    using set_loop_thinned [of ?v] by simp
  then show ?thesis
    using CallSet assms set_loop_frame [of ?v]
    by (auto simp: step_set well_formed_def thinned_def)
next
  case (CallWait cb timeout)
  show ?thesis
  proof (cases cb)
    case NotFunction
    then show ?thesis using CallWait assms by (simp add: wait_not_function)
  next
    case (Function f)
    let ?w' = "step (CallWait (Function f) timeout) w"
    let ?q = "if isSignaled w then queue w else queue w @ [Tok (tokenId w)]"
    have h: "\<forall>a h. timeoutId (tokens ?w' a) = Some h \<longrightarrow> h = a"
    proof (intro allI impI)
      fix a h
      assume t: "timeoutId (tokens ?w' a) = Some h"
      show "h = a"
      proof (cases "a = tokenId w")
        case True
        then show ?thesis using t wait_new_token [of f timeout w] by (auto split: if_splits)
      next
        case False
        then show ?thesis using t wait_tokens [OF False, of f timeout] assms
          by (simp add: well_formed_def)
      qed
    qed
    have d: "distinct (tok_ids ?q)" and b: "\<forall>a \<in> set (tok_ids ?q). a < Suc (tokenId w)"
      using assms by (auto simp: well_formed_def tok_ids_append)
    have "thinned (queue ?w') ?q" by (simp add: wait_queue reduceQueue_thinned)
    then have q: "distinct (tok_ids (queue ?w'))"
        "\<forall>a \<in> set (tok_ids (queue ?w')). a < Suc (tokenId w)"
      using d b by (auto simp: thinned_def)
    have "\<forall>a \<in> timers ?w'. a < Suc (tokenId w)"
      using wait_timers [of f timeout w] assms
      by (auto simp: well_formed_def less_Suc_eq split: if_splits)
    then show ?thesis
      using CallWait Function h q by (simp add: well_formed_def wait_tokenId)
  qed
next
  case (TimerFires h)
  then show ?thesis using assms by (auto simp: step.simps fire_def well_formed_def)
qed

lemma well_formed_run: "well_formed w \<Longrightarrow> well_formed (run es w)"
  by (induction es arbitrary: w) (simp_all add: well_formed_step)

section \<open>Counting in doubles\<close>












section \<open>C1: a release that exhausts its count\<close>

text \<open>
  C1, as the spec states it, fails for \<open>K = 0\<close>: \<open>callbacksCount\<close> is decremented before
  it is compared with 0, so a count that starts at 0 never equals 0, every queued callback
  is invoked and the reset event ends signaled. Here \<open>N = 2\<close> and \<open>K = 0\<close>.
\<close>

theorem release_with_zero_count_drains:
  "invoked (step CallSet (run (waits [(Function 1, TUndefined), (Function 2, TUndefined)])
      (ResetEvent False \<lparr>maxQueueSize = JInfinity, overflowStrategy = ''this'',
         autoResetCount = JNum 0\<rparr>))) = [0, 1] \<and>
   isSignaled (step CallSet (run (waits [(Function 1, TUndefined), (Function 2, TUndefined)])
      (ResetEvent False \<lparr>maxQueueSize = JInfinity, overflowStrategy = ''this'',
         autoResetCount = JNum 0\<rparr>)))"
  by (simp add: eval_defs)

text \<open>
  C1, amended: on a closed reset event whose queue holds tokens only, \<open>N\<close> of them not
  cancelled, with \<open>autoResetCount = K\<close> and \<open>1 \<le> K \<le> N\<close>, \<open>set\<close> returns, has invoked
  the callbacks of exactly the \<open>K\<close> oldest tokens that are not cancelled, in the order of
  the queue, and leaves the reset event closed with \<open>N - K\<close> tokens that are not
  cancelled in the queue. The queue left is a rest of the old queue; when no queued token
  is cancelled it is the old queue without its \<open>K\<close> oldest entries, \<open>N - K\<close> entries.
\<close>

theorem release_exhausts_budget:
  assumes "\<not> isSignaled w" and "autoResetCount (options w) = JNum k" and "1 \<le> k"
    and "k \<le> int (length (pending w))" and "Undef \<notin> set (queue w)"
  shows "\<exists>w'. set_op w = Inr w' \<and> invoked w' = invoked w @ take (nat k) (pending w) \<and>
           \<not> isSignaled w' \<and> pending w' = drop (nat k) (pending w) \<and>
           length (pending w') = length (pending w) - nat k \<and>
           (\<exists>n. queue w' = drop n (queue w)) \<and>
           ((\<forall>b. Tok b \<in> set (queue w) \<longrightarrow> \<not> isCanceled (tokens w b)) \<longrightarrow>
              queue w' = drop (nat k) (queue w) \<and> queueSize w' = queueSize w - nat k)"
proof -
  let ?w = "w\<lparr>callbacksCount := autoResetCount (options w)\<rparr>"
  have "pending ?w = pending w" by (simp add: pending_def)
  then have "\<exists>w'. set_loop ?w = Inr w' \<and> invoked w' = invoked ?w @ take (nat k) (pending ?w) \<and>
           isSignaled w' = isSignaled ?w \<and> tokens w' = tokens ?w \<and>
           pending w' = drop (nat k) (pending ?w) \<and>
           (\<exists>n. queue w' = drop n (queue ?w)) \<and>
           ((\<forall>b. Tok b \<in> set (queue ?w) \<longrightarrow> \<not> isCanceled (tokens ?w b)) \<longrightarrow>
              queue w' = drop (nat k) (queue ?w))"
    using assms by (intro set_loop_exhausts) auto
  then obtain w' where w': "set_loop ?w = Inr w'"
      "invoked w' = invoked w @ take (nat k) (pending w)" "isSignaled w' = isSignaled w"
      "pending w' = drop (nat k) (pending w)" "\<exists>n. queue w' = drop n (queue w)"
      "(\<forall>b. Tok b \<in> set (queue w) \<longrightarrow> \<not> isCanceled (tokens w b)) \<longrightarrow>
         queue w' = drop (nat k) (queue w)"
    using \<open>pending ?w = pending w\<close> by auto
  have "set_op w = Inr w'" using assms(1) w'(1) by (simp add: set_op_def)
  then show ?thesis using w' assms(1) by (auto simp: queueSize_def)
qed

theorem release_exhausts_budget_witness:
  "\<exists>w'. set_op (run (waits [(Function 1, TUndefined), (Function 2, TUndefined),
            (Function 3, TUndefined)])
          (ResetEvent False \<lparr>maxQueueSize = JInfinity, overflowStrategy = ''this'',
             autoResetCount = JNum 2\<rparr>)) = Inr w' \<and>
        invoked w' = [0, 1] \<and> \<not> isSignaled w' \<and> pending w' = [2] \<and> queue w' = [Tok 2]"
proof -
  let ?w = "run (waits [(Function 1, TUndefined), (Function 2, TUndefined),
            (Function 3, TUndefined)])
          (ResetEvent False \<lparr>maxQueueSize = JInfinity, overflowStrategy = ''this'',
             autoResetCount = JNum 2\<rparr>)"
  have e: "invoked ?w = []" "pending ?w = [0, 1, 2]" "queue ?w = [Tok 0, Tok 1, Tok 2]"
    "\<forall>b. Tok b \<in> set (queue ?w) \<longrightarrow> \<not> isCanceled (tokens ?w b)"
    by (simp_all add: eval_defs)
  have h: "\<not> isSignaled ?w" "autoResetCount (options ?w) = JNum 2" "(1::int) \<le> 2"
    "2 \<le> int (length (pending ?w))" "Undef \<notin> set (queue ?w)"
    by (simp_all add: eval_defs)
  from release_exhausts_budget [OF h] e show ?thesis by auto
qed

section \<open>C2: a release that drains the queue\<close>

text \<open>
  C2, as the spec states it, fails when \<open>autoResetCount\<close> equals the number of queued
  tokens: the last callback brings \<open>callbacksCount\<close> to 0 and \<open>set\<close> returns before it
  sets \<open>isSignaled\<close>. The queue is empty, the callback has run, the reset event is closed.
\<close>

theorem release_with_count_of_queue_length_stays_closed:
  "invoked (step CallSet (run (waits [(Function 1, TUndefined)])
      (ResetEvent False \<lparr>maxQueueSize = JInfinity, overflowStrategy = ''this'',
         autoResetCount = JNum 1\<rparr>))) = [0] \<and>
   queue (step CallSet (run (waits [(Function 1, TUndefined)])
      (ResetEvent False \<lparr>maxQueueSize = JInfinity, overflowStrategy = ''this'',
         autoResetCount = JNum 1\<rparr>))) = [] \<and>
   \<not> isSignaled (step CallSet (run (waits [(Function 1, TUndefined)])
      (ResetEvent False \<lparr>maxQueueSize = JInfinity, overflowStrategy = ''this'',
         autoResetCount = JNum 1\<rparr>)))"
  by (simp add: eval_defs)

text \<open>
  C2, amended: on a closed reset event whose queue holds tokens only, with
  \<open>autoResetCount\<close> infinite or greater than the number of queued tokens that are not
  cancelled, \<open>set\<close> returns, has invoked the callback of every queued token that is not
  cancelled, in the order of the queue, and leaves the queue empty and the reset event
  signaled.
\<close>

theorem release_drains_and_opens:
  assumes "\<not> isSignaled w"
    and "autoResetCount (options w) = JInfinity \<or>
      (\<exists>k. autoResetCount (options w) = JNum k \<and> int (length (pending w)) < k)"
    and "Undef \<notin> set (queue w)"
  shows "\<exists>w'. set_op w = Inr w' \<and> invoked w' = invoked w @ pending w \<and> queue w' = [] \<and>
           isSignaled w'"
proof -
  let ?w = "w\<lparr>callbacksCount := autoResetCount (options w)\<rparr>"
  have "pending ?w = pending w" by (simp add: pending_def)
  then have "\<exists>w'. set_loop ?w = Inr w' \<and> invoked w' = invoked ?w @ pending ?w \<and> queue w' = [] \<and>
           isSignaled w' \<and> tokens w' = tokens ?w"
    using assms by (intro set_loop_drains) auto
  then show ?thesis using assms(1) \<open>pending ?w = pending w\<close> by (auto simp: set_op_def)
qed

theorem release_drains_and_opens_witness:
  "\<exists>w'. set_op (run (waits [(Function 1, TUndefined), (Function 2, TNum 50)])
          (ResetEvent False \<lparr>maxQueueSize = JInfinity, overflowStrategy = ''this'',
             autoResetCount = JNum 3\<rparr>)) = Inr w' \<and>
        invoked w' = [0, 1] \<and> isSignaled w' \<and> queue w' = []"
proof -
  let ?w = "run (waits [(Function 1, TUndefined), (Function 2, TNum 50)])
          (ResetEvent False \<lparr>maxQueueSize = JInfinity, overflowStrategy = ''this'',
             autoResetCount = JNum 3\<rparr>)"
  have e: "invoked ?w = []" "pending ?w = [0, 1]"
    by (simp_all add: eval_defs)
  have h: "\<not> isSignaled ?w"
    "autoResetCount (options ?w) = JInfinity \<or>
      (\<exists>k. autoResetCount (options ?w) = JNum k \<and> int (length (pending ?w)) < k)"
    "Undef \<notin> set (queue ?w)"
    by (simp_all add: eval_defs)
  from release_drains_and_opens [OF h] e show ?thesis by auto
qed

section \<open>C3: the bound on the queue\<close>

text \<open>
  C3, as the spec states it, fails: with \<open>maxQueueSize = 0\<close> and the strategy
  \<open>'last'\<close>, \<open>reduceQueue\<close> pushes the newest token back after it has emptied the queue,
  so one \<open>wait\<close> on a new, closed reset event leaves \<open>queueSize() = 1\<close>.
\<close>

theorem queue_size_exceeds_zero_bound:
  "\<not> int (queueSize (run (waits [(Function 1, TUndefined)])
      (ResetEvent False \<lparr>maxQueueSize = JNum 0, overflowStrategy = ''last'',
         autoResetCount = JInfinity\<rparr>))) \<le> 0"
  by (simp add: eval_defs)

text \<open>
  C3, amended: for a bound \<open>maxQueueSize = m\<close> with \<open>m \<ge> 0\<close>, and \<open>m \<ge> 1\<close> when
  the strategy is \<open>'last'\<close>, and any of the three strategies: in every state a reset event
  constructed with these options can reach in which it is not signaled, every sequence of
  calls of \<open>wait\<close> leaves the reset event not signaled and \<open>queueSize()\<close> at most \<open>m\<close>,
  whether the calls return or throw. The sequence is arbitrary, so the bound holds after
  each of its calls.
\<close>

theorem queue_size_bounded_after_waits:
  assumes "maxQueueSize opts = JNum m" and "0 \<le> m"
    and "overflowStrategy opts = ''this'' \<or> overflowStrategy opts = ''first'' \<or>
       (overflowStrategy opts = ''last'' \<and> 1 \<le> m)"
    and "w = run es (ResetEvent s opts)" and "\<not> isSignaled w"
  shows "int (queueSize (run (waits calls) w)) \<le> m \<and> \<not> isSignaled (run (waits calls) w)"
proof -
  let ?w0 = "ResetEvent s opts"
  have o: "options ?w0 = opts" and q: "int (length (queue ?w0)) \<le> m"
    using assms(2) by (simp_all add: ResetEvent_def)
  have "int (length (queue w)) \<le> m \<and> options w = options ?w0"
    unfolding assms(4) using assms(1-3) o q by (intro run_keeps_bound) auto
  then have "int (length (queue (run (waits calls) w))) \<le> m \<and>
      options (run (waits calls) w) = options w"
    using assms(1-3) o by (intro run_keeps_bound) auto
  then show ?thesis using waits_closed [OF assms(5)] by (simp add: queueSize_def)
qed

theorem queue_size_bounded_after_waits_witness:
  "int (queueSize (run (waits [(Function 1, TUndefined), (Function 2, TNum 50),
        (Function 3, TUndefined)])
      (run [CallWait (Function 0) TUndefined, CallReset]
        (ResetEvent True \<lparr>maxQueueSize = JNum 2, overflowStrategy = ''last'',
           autoResetCount = JInfinity\<rparr>)))) \<le> 2"
proof -
  let ?opts = "\<lparr>maxQueueSize = JNum 2, overflowStrategy = ''last'',
           autoResetCount = JInfinity\<rparr>"
  have h: "maxQueueSize ?opts = JNum 2" "(0::int) \<le> 2"
    "overflowStrategy ?opts = ''this'' \<or> overflowStrategy ?opts = ''first'' \<or>
       (overflowStrategy ?opts = ''last'' \<and> (1::int) \<le> 2)"
    by simp_all
  have c: "\<not> isSignaled (run [CallWait (Function 0) TUndefined, CallReset]
      (ResetEvent True ?opts))"
    by (simp add: eval_defs)
  from queue_size_bounded_after_waits [OF h refl c] show ?thesis by blast
qed

section \<open>C4: a reset event that starts signaled\<close>

text \<open>
  C4: the constructor does not assign \<open>callbacksCount\<close>, so on a reset event constructed
  signaled with \<open>autoResetCount = 2\<close> the first \<open>wait\<close> makes it \<open>NaN\<close>, which is never
  0: the reset event is still signaled after the second \<open>wait\<close>, and the third \<open>wait\<close>
  invokes its callback too and queues nothing.
\<close>

theorem open_reset_event_without_set_stays_open:
  "invoked (run (waits [(Function 1, TUndefined), (Function 2, TUndefined),
        (Function 3, TUndefined)])
      (ResetEvent True \<lparr>maxQueueSize = JInfinity, overflowStrategy = ''this'',
         autoResetCount = JNum 2\<rparr>)) = [0, 1, 2] \<and>
   isSignaled (run (waits [(Function 1, TUndefined), (Function 2, TUndefined)])
      (ResetEvent True \<lparr>maxQueueSize = JInfinity, overflowStrategy = ''this'',
         autoResetCount = JNum 2\<rparr>)) \<and>
   callbacksCount (run (waits [(Function 1, TUndefined), (Function 2, TUndefined)])
      (ResetEvent True \<lparr>maxQueueSize = JInfinity, overflowStrategy = ''this'',
         autoResetCount = JNum 2\<rparr>)) = JNaN \<and>
   queue (run (waits [(Function 1, TUndefined), (Function 2, TUndefined),
        (Function 3, TUndefined)])
      (ResetEvent True \<lparr>maxQueueSize = JInfinity, overflowStrategy = ''this'',
         autoResetCount = JNum 2\<rparr>)) = []"
  by (simp add: eval_defs)

section \<open>C5: the strategy \<open>'last'\<close>\<close>

text \<open>
  C5, as the spec states it, fails for \<open>maxQueueSize = 0\<close>: a second \<open>wait\<close> finds the
  queue longer than the bound, and the queue left holds the newest token, its length
  is 1 and not \<open>maxQueueSize\<close>.
\<close>

theorem last_with_zero_bound_keeps_newest:
  "queue (run (waits [(Function 1, TUndefined), (Function 2, TUndefined)])
      (ResetEvent False \<lparr>maxQueueSize = JNum 0, overflowStrategy = ''last'',
         autoResetCount = JInfinity\<rparr>)) = [Tok 1]"
  by (simp add: eval_defs)

text \<open>
  C5, amended: with the strategy \<open>'last'\<close> and a bound \<open>maxQueueSize = m \<ge> 1\<close>, a call
  of \<open>wait\<close> on a closed reset event whose queue already holds \<open>m\<close> entries or more leaves
  the oldest \<open>m - 1\<close> entries followed by the new token, that is \<open>m\<close> entries; the
  entries removed are the ones between them, the newest of the old queue.
\<close>

theorem last_keeps_oldest_and_newest:
  assumes "overflowStrategy (options w) = ''last''" and "maxQueueSize (options w) = JNum m"
    and "1 \<le> m" and "\<not> isSignaled w" and "m \<le> int (length (queue w))"
  shows "queue (step (CallWait (Function f) timeout) w) =
           take (nat m - 1) (queue w) @ [Tok (tokenId w)] \<and>
         queueSize (step (CallWait (Function f) timeout) w) = nat m \<and>
         fst (reduceQueue (queue w @ [Tok (tokenId w)]) (options w)) =
           drop (nat m - 1) (queue w)"
proof -
  have "m < int (length (queue w @ [Tok (tokenId w)]))" using assms by simp
  then have "reduceQueue (queue w @ [Tok (tokenId w)]) (options w) =
      (drop (nat m - 1) (butlast (queue w @ [Tok (tokenId w)])),
       take (nat m - 1) (queue w @ [Tok (tokenId w)]) @ [last (queue w @ [Tok (tokenId w)])])"
    using assms by (intro reduceQueue_last) auto
  moreover have "nat m - 1 \<le> length (queue w)" using assms by linarith
  ultimately show ?thesis using assms by (simp add: wait_queue queueSize_def)
qed

theorem last_keeps_oldest_and_newest_witness:
  "queue (step (CallWait (Function 4) TUndefined)
      (run (waits [(Function 1, TUndefined), (Function 2, TUndefined), (Function 3, TUndefined)])
        (ResetEvent False \<lparr>maxQueueSize = JNum 3, overflowStrategy = ''last'',
           autoResetCount = JInfinity\<rparr>))) = [Tok 0, Tok 1, Tok 3]"
proof -
  let ?w = "run (waits [(Function 1, TUndefined), (Function 2, TUndefined),
        (Function 3, TUndefined)])
      (ResetEvent False \<lparr>maxQueueSize = JNum 3, overflowStrategy = ''last'',
         autoResetCount = JInfinity\<rparr>)"
  have q: "queue ?w = [Tok 0, Tok 1, Tok 2]" and t: "tokenId ?w = 3"
    by (simp_all add: eval_defs)
  have h: "overflowStrategy (options ?w) = ''last''" "maxQueueSize (options ?w) = JNum 3"
    "(1::int) \<le> 3" "\<not> isSignaled ?w" "3 \<le> int (length (queue ?w))"
    by (simp_all add: eval_defs)
  from last_keeps_oldest_and_newest [OF h, of 4 TUndefined]
  have "queue (step (CallWait (Function 4) TUndefined) ?w) =
      take (nat 3 - 1) (queue ?w) @ [Tok (tokenId ?w)]"
    by blast
  then show ?thesis unfolding q t by simp
qed

section \<open>C6: a token whose timeout has fired\<close>









section \<open>C7: the timers of the tokens a release pops\<close>

lemma set_loop_other_timers:
  assumes "\<forall>b h. timeoutId (tokens w b) = Some h \<longrightarrow> h = b"
    and "a \<notin> set (tok_ids (queue w))"
  shows "(a \<in> timers (left_by (set_loop w))) = (a \<in> timers w)"
  using assms
proof (induction w rule: set_loop.induct)
  case (1 w)
  show ?case
  proof (cases "queue w")
    case Nil
    then show ?thesis by (simp add: set_loop_empty)
  next
    case (Cons e q)
    then have ne: "queue w \<noteq> []" by simp
    have f: "tokens (state_of (set_body w)) = tokens w" "queue (state_of (set_body w)) = q"
      using set_body_frame [of w] Cons by simp_all
    have t: "(a \<in> timers (state_of (set_body w))) = (a \<in> timers w)"
    proof (cases e)
      case (Tok b)
      then have "b \<noteq> a" using "1.prems"(2) Cons by auto
      then show ?thesis
        using set_body_timers [of w b q] Cons Tok "1.prems"(1)
        by (auto split: option.splits)
    next
      case Undef
      then show ?thesis using Cons by (simp add: set_body_def Let_def)
    qed
    show ?thesis
    proof (cases "set_body w")
      case (Continue w')
      then have s: "state_of (set_body w) = w'" by simp
      have "a \<notin> set (tok_ids (queue w'))"
        using f s "1.prems"(2) Cons by (cases e) auto
      then have "(a \<in> timers (left_by (set_loop w'))) = (a \<in> timers w')"
        using "1.IH" [OF ne Continue] f s "1.prems"(1) by simp
      then show ?thesis using Continue ne t s by (simp add: set_loop_step)
    next
      case (Return w')
      then show ?thesis using ne t by (simp add: set_loop_step)
    next
      case (Throw x w')
      then show ?thesis using ne t by (simp add: set_loop_step)
    qed
  qed
qed

lemma set_loop_timer_of_pass:
  assumes "\<forall>b h. timeoutId (tokens w b) = Some h \<longrightarrow> h = b"
    and "distinct (tok_ids (queue w))"
    and "v \<in> set (passes w)" and "queue v = Tok a # q"
    and "timeoutId (tokens v a) = Some h" and "h \<in> timers v"
  shows "(h \<notin> timers (left_by (set_loop w))) = gt_zero (decr (callbacksCount v))"
  using assms
proof (induction w rule: set_loop.induct)
  case (1 w)
  from "1.prems"(3) have ne: "queue w \<noteq> []" by (auto simp: passes_empty)
  then obtain e r where qw: "queue w = e # r" by (cases "queue w") auto
  have f: "tokens (state_of (set_body w)) = tokens w" "queue (state_of (set_body w)) = r"
    using set_body_frame [of w] qw by simp_all
  show ?case
  proof (cases "v = w")
    case True
    then have e: "e = Tok a" "r = q" using "1.prems"(4) qw by simp_all
    have ha: "h = a" using "1.prems"(1,5) True by simp
    have "a \<notin> set (tok_ids r)" using "1.prems"(2) qw e by simp
    have b: "(a \<notin> timers (state_of (set_body w))) = gt_zero (decr (callbacksCount w))"
      using set_body_timers [of w a q] "1.prems"(5,6) qw e True ha by auto
    show ?thesis
    proof (cases "set_body w")
      case (Continue w')
      then have s: "state_of (set_body w) = w'" by simp
      have "(a \<in> timers (left_by (set_loop w'))) = (a \<in> timers w')"
        using f s "1.prems"(1) \<open>a \<notin> set (tok_ids r)\<close> by (intro set_loop_other_timers) auto
      then show ?thesis using Continue ne b s ha True by (simp add: set_loop_step)
    next
      case (Return w')
      then show ?thesis using ne b ha True by (simp add: set_loop_step)
    next
      case (Throw x w')
      then show ?thesis using ne b ha True by (simp add: set_loop_step)
    qed
  next
    case False
    have "\<exists>w'. set_body w = Continue w' \<and> v \<in> set (passes w')"
      using "1.prems"(3) ne False by (cases "set_body w") (simp_all add: passes_step)
    then obtain w' where c: "set_body w = Continue w'" and m: "v \<in> set (passes w')"
      by blast
    then have s: "state_of (set_body w) = w'" by simp
    have "distinct (tok_ids (queue w'))" using f s "1.prems"(2) qw by (cases e) auto
    then have "(h \<notin> timers (left_by (set_loop w'))) = gt_zero (decr (callbacksCount v))"
      using "1.IH" [OF ne c] f s "1.prems"(1,4,5,6) m by simp
    then show ?thesis using c ne by (simp add: set_loop_step)
  qed
qed

text \<open>
  C7: take a call of \<open>set\<close> on a reset event that is not signaled, in any state it can
  reach. The passes of its loop are the entries it pops from the front of the queue: the
  \<open>i\<close>-th pass starts with the queue less its \<open>i\<close> oldest entries, and the call leaves
  the queue less as many entries as there are passes. For each pass whose token has an
  armed timer when it is popped (its \<open>timeoutId\<close> is a handle and that timer is pending):
  after the call the timer has been cleared if and only if \<open>callbacksCount\<close> was greater
  than 0 after the decrement for that token. In particular the timer of the token that
  brings the count to 0 is still pending after the call.
\<close>

theorem drain_clears_timer_while_count_positive:
  assumes "w = run es (ResetEvent s opts)" and "\<not> isSignaled w"
  shows "queue (step CallSet w) =
           drop (length (passes (w\<lparr>callbacksCount := autoResetCount (options w)\<rparr>))) (queue w) \<and>
         (\<forall>i < length (passes (w\<lparr>callbacksCount := autoResetCount (options w)\<rparr>)).
            queue (passes (w\<lparr>callbacksCount := autoResetCount (options w)\<rparr>) ! i) =
              drop i (queue w)) \<and>
         (\<forall>v \<in> set (passes (w\<lparr>callbacksCount := autoResetCount (options w)\<rparr>)).
           \<forall>a q h. queue v = Tok a # q \<and> timeoutId (tokens v a) = Some h \<and> h \<in> timers v \<longrightarrow>
             (h \<notin> timers (step CallSet w)) = gt_zero (decr (callbacksCount v)) \<and>
             (is_zero (decr (callbacksCount v)) \<longrightarrow> h \<in> timers (step CallSet w)))"
proof (intro conjI ballI allI impI)
  let ?w = "w\<lparr>callbacksCount := autoResetCount (options w)\<rparr>"
  show "queue (step CallSet w) = drop (length (passes ?w)) (queue w)"
    using assms(2) set_loop_popped [of ?w] by (simp add: step_set)
next
  let ?w = "w\<lparr>callbacksCount := autoResetCount (options w)\<rparr>"
  fix i
  assume "i < length (passes ?w)"
  then show "queue (passes ?w ! i) = drop i (queue w)" using passes_queue [of i ?w] by simp
next
  fix v a q h
  let ?w = "w\<lparr>callbacksCount := autoResetCount (options w)\<rparr>"
  assume v: "v \<in> set (passes ?w)"
    and p: "queue v = Tok a # q \<and> timeoutId (tokens v a) = Some h \<and> h \<in> timers v"
  have "well_formed w" unfolding assms(1) by (intro well_formed_run well_formed_new)
  then have "\<forall>b h. timeoutId (tokens ?w b) = Some h \<longrightarrow> h = b" "distinct (tok_ids (queue ?w))"
    by (simp_all add: well_formed_def)
  from set_loop_timer_of_pass [OF this v] p
  have "(h \<notin> timers (left_by (set_loop ?w))) = gt_zero (decr (callbacksCount v))" by blast
  then have 1: "(h \<notin> timers (step CallSet w)) = gt_zero (decr (callbacksCount v))"
    using assms(2) by (simp add: step_set)
  then show "(h \<notin> timers (step CallSet w)) = gt_zero (decr (callbacksCount v))" .
  {
    assume "is_zero (decr (callbacksCount v))"
    then have "\<not> gt_zero (decr (callbacksCount v))" by (cases "decr (callbacksCount v)") auto
    with 1 show "h \<in> timers (step CallSet w)" by simp
  }
qed

theorem drain_clears_timer_while_count_positive_witness:
  "0 \<notin> timers (step CallSet
      (run (waits [(Function 1, TNum 50), (Function 2, TNum 50)])
        (ResetEvent False \<lparr>maxQueueSize = JInfinity, overflowStrategy = ''this'',
           autoResetCount = JNum 2\<rparr>))) \<and>
   1 \<in> timers (step CallSet
      (run (waits [(Function 1, TNum 50), (Function 2, TNum 50)])
        (ResetEvent False \<lparr>maxQueueSize = JInfinity, overflowStrategy = ''this'',
           autoResetCount = JNum 2\<rparr>)))"
proof -
  let ?w = "run (waits [(Function 1, TNum 50), (Function 2, TNum 50)])
        (ResetEvent False \<lparr>maxQueueSize = JInfinity, overflowStrategy = ''this'',
           autoResetCount = JNum 2\<rparr>)"
  let ?v0 = "?w\<lparr>callbacksCount := autoResetCount (options ?w)\<rparr>"
  let ?v1 = "?v0\<lparr>queue := [Tok 1], callbacksCount := JNum 1, timers := {1},
      invoked := [0]\<rparr>"
  have c: "\<not> isSignaled ?w" by (simp add: eval_defs)
  note r = drain_clears_timer_while_count_positive
    [OF refl c, THEN conjunct2, THEN conjunct2, rule_format]
  have q0: "queue ?v0 \<noteq> []" by (simp add: eval_defs)
  have p0: "queue ?v0 = Tok 0 # [Tok 1] \<and> timeoutId (tokens ?v0 0) = Some 0 \<and> 0 \<in> timers ?v0"
    by (simp add: eval_defs)
  have g0: "gt_zero (decr (callbacksCount ?v0))" by (simp add: eval_defs)
  have "{Suc 0, 0} - {0} = {Suc 0}" by auto
  then have b0: "set_body ?v0 = Continue ?v1" by (simp add: eval_defs)
  have q1: "queue ?v1 \<noteq> []" by simp
  have p1: "queue ?v1 = Tok 1 # [] \<and> timeoutId (tokens ?v1 1) = Some 1 \<and> 1 \<in> timers ?v1"
    by (simp add: eval_defs)
  have z1: "is_zero (decr (callbacksCount ?v1))" by simp
  from r [OF passes_head [OF q0] p0] g0
  have "0 \<notin> timers (step CallSet ?w)" by blast
  moreover from r [OF passes_next [OF q0 b0 q1] p1] z1
  have "1 \<in> timers (step CallSet ?w)" by blast
  ultimately show ?thesis by blast
qed

section \<open>C8: \<open>reset\<close> and \<open>set\<close> in turn\<close>

lemma set_op_closed:
  assumes "\<not> isSignaled w" and "Undef \<notin> set (queue w)"
  shows "\<exists>w'. set_op w = Inr w' \<and> isSignaled w' = (\<not> exhausts w) \<and>
           invoked w' = invoked w @ released w \<and>
           pending w' = drop (length (released w)) (pending w) \<and>
           (isSignaled w' \<longrightarrow> queue w' = [])"
proof (cases "exhausts w")
  case True
  then obtain k where k: "autoResetCount (options w) = JNum k" "1 \<le> k"
      "k \<le> int (length (pending w))"
    by (auto simp: exhausts_def split: jsnum.splits)
  let ?w = "w\<lparr>callbacksCount := autoResetCount (options w)\<rparr>"
  have pw: "pending ?w = pending w" by (simp add: pending_def)
  have "\<exists>w'. set_loop ?w = Inr w' \<and> invoked w' = invoked ?w @ take (nat k) (pending ?w) \<and>
           isSignaled w' = isSignaled ?w \<and> tokens w' = tokens ?w \<and>
           pending w' = drop (nat k) (pending ?w) \<and>
           (\<exists>n. queue w' = drop n (queue ?w)) \<and>
           ((\<forall>b. Tok b \<in> set (queue ?w) \<longrightarrow> \<not> isCanceled (tokens ?w b)) \<longrightarrow>
              queue w' = drop (nat k) (queue ?w))"
    using assms k pw by (intro set_loop_exhausts) auto
  then obtain w' where w': "set_loop ?w = Inr w'"
      "invoked w' = invoked w @ take (nat k) (pending w)" "isSignaled w' = isSignaled w"
      "pending w' = drop (nat k) (pending w)"
    using pw by auto
  have r: "released w = take (nat k) (pending w)" using k by (simp add: released_def)
  have "length (released w) = nat k" unfolding r using k by simp
  then show ?thesis using w' assms(1) True r by (simp add: set_op_def)
next
  case False
  let ?w = "w\<lparr>callbacksCount := autoResetCount (options w)\<rparr>"
  have pw: "pending ?w = pending w" by (simp add: pending_def)
  have "\<not> (\<exists>k. callbacksCount ?w = JNum k \<and> 1 \<le> k \<and> k \<le> int (length (pending ?w)))"
    using False pw by (auto simp: exhausts_def)
  then have "\<exists>w'. set_loop ?w = Inr w' \<and> invoked w' = invoked ?w @ pending ?w \<and> queue w' = [] \<and>
           isSignaled w' \<and> tokens w' = tokens ?w"
    using assms(2) by (intro set_loop_never_zero) auto
  then obtain w' where w': "set_loop ?w = Inr w'" "invoked w' = invoked w @ pending w"
      "queue w' = []" "isSignaled w'"
    using pw by auto
  have r: "released w = pending w" using False by (auto simp: released_def exhausts_def split: jsnum.splits)
  have "pending w' = []" using w'(3) by (simp add: pending_def)
  then show ?thesis using w' assms(1) False r by (simp add: set_op_def)
qed

lemma in_turn_empty:
  "queue w = [] \<Longrightarrow>
   \<exists>w'. in_turn (isSignaled w) n w = Inr w' \<and> queue w' = [] \<and>
     isSignaled w' = (even n = isSignaled w)"
proof (induction n arbitrary: w)
  case 0
  then show ?case by simp
next
  case (Suc n)
  let ?w1 = "if isSignaled w then w\<lparr>isSignaled := False\<rparr>
      else w\<lparr>callbacksCount := autoResetCount (options w), isSignaled := True\<rparr>"
  have c: "(if isSignaled w then reset w else set_op w) = Inr ?w1"
    using Suc.prems by (simp add: reset_def set_op_def set_loop_empty)
  have q: "queue ?w1 = []" and s: "isSignaled ?w1 = (\<not> isSignaled w)" using Suc.prems by auto
  from Suc.IH [OF q] obtain w' where
    "in_turn (isSignaled ?w1) n ?w1 = Inr w'" "queue w' = []"
    "isSignaled w' = (even n = isSignaled ?w1)"
    by blast
  then show ?case using c s by (cases "isSignaled w") auto
qed

text \<open>
  C8, as the spec states it, fails: a \<open>set\<close> that exhausts its count returns with the reset
  event still not signaled, so the \<open>reset\<close> that follows throws. Here one token is queued
  and \<open>autoResetCount = 1\<close>.
\<close>

theorem reset_fails_after_set_that_exhausts_count:
  "\<not> isSignaled (step CallSet (run (waits [(Function 1, TUndefined)])
      (ResetEvent False \<lparr>maxQueueSize = JInfinity, overflowStrategy = ''this'',
         autoResetCount = JNum 1\<rparr>))) \<and>
   map_sum fst (\<lambda>w. ()) (set_op (run (waits [(Function 1, TUndefined)])
      (ResetEvent False \<lparr>maxQueueSize = JInfinity, overflowStrategy = ''this'',
         autoResetCount = JNum 1\<rparr>))) = Inr () \<and>
   map_sum fst (\<lambda>w. ()) (reset (step CallSet (run (waits [(Function 1, TUndefined)])
      (ResetEvent False \<lparr>maxQueueSize = JInfinity, overflowStrategy = ''this'',
         autoResetCount = JNum 1\<rparr>)))) = Inl AlreadyNonSignaled \<and>
   map_sum fst (\<lambda>w. ()) (in_turn False (Suc (Suc 0)) (run (waits [(Function 1, TUndefined)])
      (ResetEvent False \<lparr>maxQueueSize = JInfinity, overflowStrategy = ''this'',
         autoResetCount = JNum 1\<rparr>))) = Inl AlreadyNonSignaled"
  by (simp add: eval_defs)

text \<open>
  C8, amended: \<open>reset\<close> on a signaled reset event returns and leaves it not signaled, the
  rest unchanged; \<open>reset\<close> on a reset event that is not signaled and \<open>set\<close> on a
  signaled one throw and leave the state unchanged, so calls in turn that start with the
  wrong one end at once. \<open>set\<close> on a reset event that is not signaled, whose queue holds
  tokens only, returns, has invoked the tokens it releases, and leaves the reset event
  signaled, with an empty queue, unless it exhausts its count; then the reset event stays
  not signaled and the \<open>reset\<close> that follows throws. When it does not exhaust its count,
  and from any state with an empty queue, any number of calls of \<open>set\<close> and \<open>reset\<close>
  strictly in turn all return and each flips \<open>isSignaled\<close>.
\<close>

theorem reset_and_set_alternate:
  "(isSignaled w \<longrightarrow>
      reset w = Inr (w\<lparr>isSignaled := False\<rparr>) \<and> set_op w = Inl (AlreadySignaled, w) \<and>
      in_turn False (Suc n) w = Inl (AlreadySignaled, w)) \<and>
   (\<not> isSignaled w \<longrightarrow>
      reset w = Inl (AlreadyNonSignaled, w) \<and>
      in_turn True (Suc n) w = Inl (AlreadyNonSignaled, w) \<and>
      (Undef \<notin> set (queue w) \<longrightarrow>
         (\<exists>w'. set_op w = Inr w' \<and> isSignaled w' = (\<not> exhausts w) \<and>
            invoked w' = invoked w @ released w \<and>
            pending w' = drop (length (released w)) (pending w) \<and>
            (isSignaled w' \<longrightarrow> queue w' = []) \<and>
            (exhausts w \<longrightarrow> in_turn False (Suc (Suc n)) w = Inl (AlreadyNonSignaled, w')) \<and>
            (\<not> exhausts w \<longrightarrow>
               (\<exists>w''. in_turn False (Suc n) w = Inr w'' \<and> queue w'' = [] \<and>
                  isSignaled w'' = even n))))) \<and>
   (queue w = [] \<longrightarrow>
      (\<exists>w'. in_turn (isSignaled w) n w = Inr w' \<and> queue w' = [] \<and>
         isSignaled w' = (even n = isSignaled w)))"
proof -
  have a: "\<exists>w'. set_op w = Inr w' \<and> isSignaled w' = (\<not> exhausts w) \<and>
            invoked w' = invoked w @ released w \<and>
            pending w' = drop (length (released w)) (pending w) \<and>
            (isSignaled w' \<longrightarrow> queue w' = []) \<and>
            (exhausts w \<longrightarrow> in_turn False (Suc (Suc n)) w = Inl (AlreadyNonSignaled, w')) \<and>
            (\<not> exhausts w \<longrightarrow>
               (\<exists>w''. in_turn False (Suc n) w = Inr w'' \<and> queue w'' = [] \<and>
                  isSignaled w'' = even n))"
    if c: "\<not> isSignaled w" and u: "Undef \<notin> set (queue w)"
  proof -
    from set_op_closed [OF c u] obtain w' where
      w': "set_op w = Inr w'" "isSignaled w' = (\<not> exhausts w)"
        "invoked w' = invoked w @ released w"
        "pending w' = drop (length (released w)) (pending w)"
        "isSignaled w' \<longrightarrow> queue w' = []"
      by blast
    have 1: "in_turn False (Suc (Suc n)) w = Inl (AlreadyNonSignaled, w')" if "exhausts w"
      using that w' by (simp add: reset_def)
    have 2: "\<exists>w''. in_turn False (Suc n) w = Inr w'' \<and> queue w'' = [] \<and> isSignaled w'' = even n"
      if "\<not> exhausts w"
    proof -
      have "queue w' = []" "isSignaled w'" using that w' by auto
      with in_turn_empty [of w' n] show ?thesis using w'(1) by auto
    qed
    show ?thesis using w' 1 2 by blast
  qed
  show ?thesis
    using a in_turn_empty [of w n] by (auto simp: reset_def set_op_def)
qed

theorem reset_and_set_alternate_witness:
  "\<exists>w'. set_op (run (waits [(Function 1, TUndefined), (Function 2, TUndefined)])
          (ResetEvent False \<lparr>maxQueueSize = JInfinity, overflowStrategy = ''this'',
             autoResetCount = JNum 3\<rparr>)) = Inr w' \<and>
        isSignaled w' \<and> invoked w' = [0, 1] \<and> queue w' = []"
proof -
  let ?w = "run (waits [(Function 1, TUndefined), (Function 2, TUndefined)])
          (ResetEvent False \<lparr>maxQueueSize = JInfinity, overflowStrategy = ''this'',
             autoResetCount = JNum 3\<rparr>)"
  have h: "\<not> isSignaled ?w" "Undef \<notin> set (queue ?w)" "\<not> exhausts ?w" "invoked ?w = []"
    "released ?w = [0, 1]"
    by (simp_all add: eval_defs exhausts_def released_def)
  from reset_and_set_alternate [of ?w 0] h show ?thesis by auto
qed

section \<open>C9: a signaled reset event and its queue\<close>

text \<open>
  For every configuration but the strategy \<open>'last'\<close> with a negative \<open>maxQueueSize\<close>,
  no event breaks the invariant that the queue of a signaled reset event is empty; it holds
  of every new reset event, whose queue is empty.
\<close>

lemma open_queue_empty_preserved:
  assumes "\<not> (is_number (maxQueueSize (options w)) \<and> length_gt 0 (maxQueueSize (options w)) \<and>
      overflowStrategy (options w) = ''last'')"
    and "isSignaled w \<longrightarrow> queue w = []"
  shows "isSignaled (step e w) \<longrightarrow> queue (step e w) = []"
proof (cases e)
  case CallReset
  then show ?thesis by (simp add: step_reset)
next
  case CallSet
  then show ?thesis
    using assms(2) set_loop_signaled [of "w\<lparr>callbacksCount := autoResetCount (options w)\<rparr>"]
    by (simp add: step_set)
next
  case (CallWait cb timeout)
  show ?thesis
  proof (cases cb)
    case NotFunction
    then show ?thesis using CallWait assms(2) by (simp add: wait_not_function)
  next
    case (Function f)
    then show ?thesis
      using CallWait assms by (simp add: wait_isSignaled wait_queue reduceQueue_empty)
  qed
next
  case (TimerFires h)
  then show ?thesis using assms(2) by (simp add: step.simps fire_def)
qed

text \<open>
  C9: with the strategy \<open>'last'\<close> and \<open>maxQueueSize = -1\<close>, \<open>wait\<close> on a signaled reset
  event invokes the callback and then \<open>reduceQueue\<close> finds the length 0 of the empty queue
  greater than \<open>maxQueueSize\<close>: its first \<open>queue.pop()\<close> has no guard, yields
  \<open>undefined\<close>, and \<open>queue.push(last)\<close> queues it. The reset event is signaled and
  \<open>queueSize()\<close> is 1; after a \<open>reset\<close>, \<open>set\<close> throws a \<open>TypeError\<close> on that entry.
\<close>

theorem open_reset_event_queues_undefined:
  "isSignaled (step (CallWait (Function 1) TUndefined)
      (ResetEvent True \<lparr>maxQueueSize = JNum (- 1), overflowStrategy = ''last'',
         autoResetCount = JInfinity\<rparr>)) \<and>
   queue (step (CallWait (Function 1) TUndefined)
      (ResetEvent True \<lparr>maxQueueSize = JNum (- 1), overflowStrategy = ''last'',
         autoResetCount = JInfinity\<rparr>)) = [Undef] \<and>
   queueSize (step (CallWait (Function 1) TUndefined)
      (ResetEvent True \<lparr>maxQueueSize = JNum (- 1), overflowStrategy = ''last'',
         autoResetCount = JInfinity\<rparr>)) = 1 \<and>
   map_sum fst (\<lambda>w. ()) (set_op (run [CallWait (Function 1) TUndefined, CallReset]
      (ResetEvent True \<lparr>maxQueueSize = JNum (- 1), overflowStrategy = ''last'',
         autoResetCount = JInfinity\<rparr>))) = Inl TypeError"
  by (simp add: eval_defs)

section \<open>C10: the timeout argument of \<open>wait\<close>\<close>

lemma truthy_iff:
  "truthy x = (x = TInfinity \<or> x = TNegInfinity \<or> (\<exists>r. x = TNum r \<and> r \<noteq> 0))"
  by (cases x) auto

text \<open>
  C10, as stated, fails in its last part: \<open>if (timeout)\<close> tests truthiness, so a negative
  timeout arms the timer as well. After \<open>wait(cb, -1)\<close> the token holds a timer handle, the
  timer is pending, and when it fires the token is cancelled.
\<close>

theorem negative_timeout_arms_timer:
  "timeoutId (tokens (step (CallWait (Function 1) (TNum (- 1)))
      (ResetEvent False defaultOptions)) 0) = Some 0 \<and>
   0 \<in> timers (step (CallWait (Function 1) (TNum (- 1))) (ResetEvent False defaultOptions)) \<and>
   isCanceled (tokens (fire 0 (step (CallWait (Function 1) (TNum (- 1)))
      (ResetEvent False defaultOptions))) 0)"
  by (simp add: eval_defs)

text \<open>
  C10, amended: a call of \<open>wait\<close> on a reset event in any state it can reach, that returns
  the token \<open>t\<close>, has armed a timer exactly when the timeout is truthy, that is
  \<open>Infinity\<close>, \<open>-Infinity\<close> or a number other than 0 (negative ones and fractions
  included). The token's \<open>timeoutId\<close> is then the handle, and in the state \<open>wait\<close>
  returns the timer is pending unless this very call has evicted and cancelled the token;
  when it fires, the token is cancelled. With a timeout of 0, \<open>NaN\<close> or \<open>undefined\<close>
  (the argument left out) the token has no handle, no timer of it is pending, and
  whatever happens afterwards none ever is: the token is never cancelled by a timeout.
\<close>

theorem falsy_timeout_arms_no_timer:
  assumes "w = run es0 (ResetEvent s opts)" and "wait (Function f) timeout w = Inr (t, w')"
  shows "timeoutId (tokens w' t) = (if truthy timeout then Some t else None) \<and>
         (t \<in> timers w') = (truthy timeout \<and> \<not> isCanceled (tokens w' t)) \<and>
         (t \<in> timers w' \<longrightarrow> isCanceled (tokens (fire t w') t)) \<and>
         truthy timeout =
           (timeout = TInfinity \<or> timeout = TNegInfinity \<or> (\<exists>r. timeout = TNum r \<and> r \<noteq> 0)) \<and>
         (\<not> truthy timeout \<longrightarrow>
            (\<forall>es. t \<notin> timers (run es w') \<and> fire t (run es w') = run es w'))"
proof -
  from wait_returns [OF assms(2)] have t: "t = tokenId w"
    and w': "w' = step (CallWait (Function f) timeout) w" by auto
  have wf: "well_formed w" unfolding assms(1) by (intro well_formed_run well_formed_new)
  then have fresh: "t \<notin> timers w" using t by (auto simp: well_formed_def)
  let ?q = "reduceQueue (queue (placed f timeout w)) (options w)"
  let ?p = "(placed f timeout w)\<lparr>queue := snd ?q\<rparr>"
  have s: "w' = left_by (cancel_reduced (fst ?q) ?p)" unfolding w' by (rule step_wait)
  have 1: "timeoutId (tokens w' t) = (if truthy timeout then Some t else None)"
    unfolding w' t by (rule wait_new_token)
  have p: "\<forall>b h. timeoutId (tokens ?p b) = Some h \<longrightarrow> h = b"
      "t \<in> timers ?p \<longrightarrow> timeoutId (tokens ?p t) = Some t"
      "isCanceled (tokens ?p t) \<longrightarrow> t \<notin> timers ?p"
      "(t \<in> timers ?p) = truthy timeout"
    using wf fresh t by (auto simp: placed_frame well_formed_def)
  have 2: "(t \<in> timers w') = (truthy timeout \<and> \<not> isCanceled (tokens w' t))"
    unfolding s using cancel_reduced_timer [OF p(1-3), of "fst ?q"] p(4) by simp
  have 3: "t \<in> timers w' \<longrightarrow> isCanceled (tokens (fire t w') t)" by (simp add: fire_def)
  have 4: "\<forall>es. t \<notin> timers (run es w') \<and> fire t (run es w') = run es w'"
    if "\<not> truthy timeout"
  proof
    fix es
    have "t \<notin> timers w'" using 2 that by simp
    moreover have "t < tokenId w'" using t w' by (simp add: wait_tokenId)
    ultimately have "t \<notin> timers (run es w')" using run_no_timer [of t w' es] by simp
    then show "t \<notin> timers (run es w') \<and> fire t (run es w') = run es w'"
      by (simp add: fire_def)
  qed
  show ?thesis using 1 2 3 4 truthy_iff [of timeout] by blast
qed

theorem falsy_timeout_arms_no_timer_witness:
  "timeoutId (tokens (step (CallWait (Function 1) (TNum 0)) (ResetEvent False defaultOptions)) 0)
     = None \<and>
   0 \<notin> timers (run [TimerFires 0, CallSet]
     (step (CallWait (Function 1) (TNum 0)) (ResetEvent False defaultOptions))) \<and>
   timeoutId (tokens (step (CallWait (Function 1) (TNum (1 / 2)))
     (ResetEvent False defaultOptions)) 0) = Some 0 \<and>
   0 \<in> timers (step (CallWait (Function 1) (TNum (1 / 2))) (ResetEvent False defaultOptions))"
proof -
  let ?w0 = "step (CallWait (Function 1) (TNum 0)) (ResetEvent False defaultOptions)"
  let ?w1 = "step (CallWait (Function 1) (TNum (1 / 2))) (ResetEvent False defaultOptions)"
  have h0: "wait (Function 1) (TNum 0) (run [] (ResetEvent False defaultOptions)) = Inr (0, ?w0)"
    by (simp add: eval_defs)
  have h1: "wait (Function 1) (TNum (1 / 2)) (run [] (ResetEvent False defaultOptions)) =
      Inr (0, ?w1)"
    by (simp add: eval_defs)
  have n: "\<not> isCanceled (tokens ?w1 0)" by (simp add: eval_defs)
  note r0 = falsy_timeout_arms_no_timer [OF refl h0]
  note r1 = falsy_timeout_arms_no_timer [OF refl h1]
  from r0 have "timeoutId (tokens ?w0 0) = None" by simp
  moreover from r0 have "\<forall>es. 0 \<notin> timers (run es ?w0)" by simp
  moreover from r1 have "timeoutId (tokens ?w1 0) = Some 0" by simp
  moreover from r1 n have "0 \<in> timers ?w1" by simp
  ultimately show ?thesis by blast
qed

end
